theory Spec2Isabelle
  imports Main
begin

section \<open>Batch reservation of TTM buffer objects (ttm\_execbuf\_util.c)\<close>

text \<open>
  The three exported procedures of \<^verbatim>\<open>drivers/gpu/drm/ttm/ttm_execbuf_util.c\<close> and the
  static helper they share are embedded as state-passing functions over a record of the
  shared state. A buffer object is identified by a natural number (its address), an
  acquire context (ticket) likewise, with \<open>None\<close> for the \<^verbatim>\<open>NULL\<close> ticket. The
  intrusive validate list is a HOL list and the loop cursor \<^verbatim>\<open>entry\<close> is the position
  of the current entry in it.
\<close>

subsection \<open>Error numbers\<close>

text \<open>Modelled from the spec: the error numbers come from kernel headers
  (\<^verbatim>\<open>errno-base.h\<close>, \<^verbatim>\<open>errno.h\<close>) that are not part of the sources at hand. The spec
  tells the outcomes apart by name only; the values are the ones of Linux, returned
  negated in a C \<^verbatim>\<open>int\<close>, and nothing depends on them but their being distinct and not
  zero.\<close>

definition EINTR :: int where "EINTR = 4"
definition ENOMEM :: int where "ENOMEM = 12"
definition EBUSY :: int where "EBUSY = 16"
definition EDEADLK :: int where "EDEADLK = 35"
definition EALREADY :: int where "EALREADY = 114"
definition ERESTARTSYS :: int where "ERESTARTSYS = 512"

subsection \<open>Data model\<close>

text \<open>\<^verbatim>\<open>struct ttm_validate_buffer\<close>: the buffer object and the number of shared fence
  slots to reserve on it, an unsigned count that the code only tests for zero and passes
  on (the list linkage \<^verbatim>\<open>head\<close> is the position in the list).\<close>

record ttm_validate_buffer =
  bo :: nat
  num_shared :: nat

text \<open>Who holds a reservation lock: a ticketed batch, or a caller without a ticket.\<close>

datatype owner = Ticket nat | Untracked

datatype ctx_phase = Uninit | Acquiring | Done | Finished

text \<open>Every call of a primitive of the collaborating subsystems is logged, in call order,
  with its result where it has one.\<close>

datatype event =
    AcquireInit nat
  | AcquireDone nat
  | AcquireFini nat
  | Reserve nat int
  | ReserveShared nat nat int
  | LockSlow nat int
  | Unlock nat
  | MoveToLruTail nat
  | AddSharedFence nat nat
  | AddExclFence nat nat
  | LruLock
  | LruUnlock

record system =
  holder :: "nat \<Rightarrow> owner option"
  shared_slots :: "nat \<Rightarrow> nat"
  fence_excl :: "nat \<Rightarrow> nat option"
  fence_shared :: "nat \<Rightarrow> nat list"
  lru :: "nat list"
  acquire_ctx :: "nat \<Rightarrow> ctx_phase"
  trace :: "event list"

text \<open>What the rest of the system decides: the outcome of a lock attempt on a buffer
  another owner holds, whether a signal interrupts an interruptible wait, and whether the
  allocation of shared fence slots fails. Each may depend on everything that happened so
  far.\<close>

datatype contention = Granted | Deadlock

record env =
  lock_contended :: "system \<Rightarrow> nat \<Rightarrow> contention"
  signal_pending :: "system \<Rightarrow> nat \<Rightarrow> bool"
  slots_exhausted :: "system \<Rightarrow> nat \<Rightarrow> nat \<Rightarrow> bool"

definition log :: "event \<Rightarrow> system \<Rightarrow> system" where
  "log ev s = s\<lparr>trace := trace s @ [ev]\<rparr>"

definition owner_of :: "nat option \<Rightarrow> owner" where
  "owner_of ticket = (case ticket of None \<Rightarrow> Untracked | Some t \<Rightarrow> Ticket t)"

subsection \<open>Primitives of the collaborating subsystems\<close>

text \<open>Modelled from the spec: \<^verbatim>\<open>ww_acquire_init\<close>, \<^verbatim>\<open>ww_acquire_done\<close> and
  \<^verbatim>\<open>ww_acquire_fini\<close> (linux/ww\_mutex.h) are not part of the sources at hand. The ticket
  is created at batch start and invalidated by \<open>fini\<close>.\<close>

definition ww_acquire_init :: "nat \<Rightarrow> system \<Rightarrow> system" where
  "ww_acquire_init t s = log (AcquireInit t) (s\<lparr>acquire_ctx := (acquire_ctx s)(t := Acquiring)\<rparr>)"

definition ww_acquire_done :: "nat \<Rightarrow> system \<Rightarrow> system" where
  "ww_acquire_done t s = log (AcquireDone t) (s\<lparr>acquire_ctx := (acquire_ctx s)(t := Done)\<rparr>)"

definition ww_acquire_fini :: "nat \<Rightarrow> system \<Rightarrow> system" where
  "ww_acquire_fini t s = log (AcquireFini t) (s\<lparr>acquire_ctx := (acquire_ctx s)(t := Finished)\<rparr>)"

text \<open>Modelled from the spec: \<^verbatim>\<open>__ttm_bo_reserve\<close> (drm/ttm/ttm\_bo\_driver.h) is not part
  of the sources at hand; \<open>take_lock\<close> is the lock changing hands. Without waiting (the
  caller has no ticket) it is a trylock: success on an unlocked buffer, \<open>-EBUSY\<close>
  otherwise. With a ticket an unlocked buffer is locked at once, a buffer this ticket
  already holds gives \<open>-EALREADY\<close>, and on a buffer another owner holds the environment
  decides: the attempt is interrupted (\<open>-ERESTARTSYS\<close>, interruptible batches only),
  refused with \<open>-EDEADLK\<close>, or granted once the holder has released.\<close>

definition take_lock :: "nat \<Rightarrow> nat option \<Rightarrow> system \<Rightarrow> system" where
  "take_lock b ticket s = s\<lparr>holder := (holder s)(b := Some (owner_of ticket))\<rparr>"

definition ttm_bo_reserve ::
  "env \<Rightarrow> nat \<Rightarrow> bool \<Rightarrow> bool \<Rightarrow> nat option \<Rightarrow> system \<Rightarrow> int \<times> system" where
  "ttm_bo_reserve e b interruptible no_wait ticket s =
     (let locked = take_lock b ticket s;
          (ret, s') =
            (if no_wait then
               (if ticket \<noteq> None then (- EBUSY, s)
                else if holder s b = None then (0, locked) else (- EBUSY, s))
             else
               (case holder s b of
                  None \<Rightarrow> (0, locked)
                | Some w \<Rightarrow>
                    if ticket \<noteq> None \<and> w = owner_of ticket then (- EALREADY, s)
                    else if interruptible \<and> signal_pending e s b then (- ERESTARTSYS, s)
                    else if ticket \<noteq> None \<and> lock_contended e s b = Deadlock
                    then (- EDEADLK, s)
                    else (0, locked)))
      in (ret, log (Reserve b ret) s'))"

text \<open>Modelled from the spec: \<^verbatim>\<open>dma_resv_lock_slow\<close> and
  \<^verbatim>\<open>dma_resv_lock_slow_interruptible\<close> (linux/dma-resv.h) are not part of the sources at
  hand. The priority-aware wait blocks until the lock is obtained; the interruptible
  variant returns \<open>-EINTR\<close> instead when a signal arrives.\<close>

definition dma_resv_lock_slow :: "nat \<Rightarrow> nat option \<Rightarrow> system \<Rightarrow> system" where
  "dma_resv_lock_slow b ticket s =
     log (LockSlow b 0) (take_lock b ticket s)"

definition dma_resv_lock_slow_interruptible ::
  "env \<Rightarrow> nat \<Rightarrow> nat option \<Rightarrow> system \<Rightarrow> int \<times> system" where
  "dma_resv_lock_slow_interruptible e b ticket s =
     (if signal_pending e s b then (- EINTR, log (LockSlow b (- EINTR)) s)
      else (0, dma_resv_lock_slow b ticket s))"

text \<open>Modelled from the spec: \<^verbatim>\<open>dma_resv_unlock\<close> is not part of the sources at hand.\<close>

definition dma_resv_unlock :: "nat \<Rightarrow> system \<Rightarrow> system" where
  "dma_resv_unlock b s = log (Unlock b) (s\<lparr>holder := (holder s)(b := None)\<rparr>)"

text \<open>Modelled from the spec: \<^verbatim>\<open>dma_resv_reserve_shared\<close> is not part of the sources at
  hand. It makes room for \<open>n\<close> shared fences, or fails with \<open>-ENOMEM\<close> and changes
  nothing.\<close>

definition dma_resv_reserve_shared :: "env \<Rightarrow> nat \<Rightarrow> nat \<Rightarrow> system \<Rightarrow> int \<times> system" where
  "dma_resv_reserve_shared e b n s =
     (if slots_exhausted e s b n then (- ENOMEM, log (ReserveShared b n (- ENOMEM)) s)
      else (0, log (ReserveShared b n 0)
                 (s\<lparr>shared_slots := (shared_slots s)(b := max (shared_slots s b) n)\<rparr>)))"

text \<open>Modelled from the spec: \<^verbatim>\<open>dma_resv_add_shared_fence\<close> and
  \<^verbatim>\<open>dma_resv_add_excl_fence\<close> are not part of the sources at hand. A shared fence is
  recorded in addition to the ones present; an exclusive fence replaces the exclusive one
  and supersedes the shared ones.\<close>

definition dma_resv_add_shared_fence :: "nat \<Rightarrow> nat \<Rightarrow> system \<Rightarrow> system" where
  "dma_resv_add_shared_fence b f s =
     log (AddSharedFence b f) (s\<lparr>fence_shared := (fence_shared s)(b := fence_shared s b @ [f])\<rparr>)"

definition dma_resv_add_excl_fence :: "nat \<Rightarrow> nat \<Rightarrow> system \<Rightarrow> system" where
  "dma_resv_add_excl_fence b f s =
     log (AddExclFence b f)
       (s\<lparr>fence_excl := (fence_excl s)(b := Some f), fence_shared := (fence_shared s)(b := [])\<rparr>)"

text \<open>Modelled from the spec: \<^verbatim>\<open>ttm_bo_move_to_lru_tail\<close> (ttm\_bo.c) and the spinlock
  \<^verbatim>\<open>ttm_bo_glob.lru_lock\<close> are not part of the sources at hand. The buffer is taken
  out of the LRU sequence and put back at its tail.\<close>

definition ttm_bo_move_to_lru_tail :: "nat \<Rightarrow> system \<Rightarrow> system" where
  "ttm_bo_move_to_lru_tail b s =
     log (MoveToLruTail b) (s\<lparr>lru := filter (\<lambda>x. x \<noteq> b) (lru s) @ [b]\<rparr>)"

definition spin_lock :: "system \<Rightarrow> system" where
  "spin_lock s = log LruLock s"

definition spin_unlock :: "system \<Rightarrow> system" where
  "spin_unlock s = log LruUnlock s"

subsection \<open>List surgery\<close>

text \<open>\<^verbatim>\<open>list_del(&entry->head)\<close> for the entry at position \<open>i\<close>; \<^verbatim>\<open>list_add(new, head)\<close>
  inserts right after the list head, that is, in front.\<close>

definition list_del :: "nat \<Rightarrow> 'a list \<Rightarrow> 'a list" where
  "list_del i xs = take i xs @ drop (Suc i) xs"

definition list_add :: "'a \<Rightarrow> 'a list \<Rightarrow> 'a list" where
  "list_add x xs = x # xs"

subsection \<open>ttm\_eu\_backoff\_reservation\_reverse\<close>

text \<open>\<^verbatim>\<open>list_for_each_entry_continue_reverse(entry, list, head)\<close> starts at the entry before
  the given one and walks back to the list head: from position \<open>i\<close> given, it visits
  \<open>i - 1\<close>, \dots, \<open>0\<close>.\<close>

fun ttm_eu_backoff_reservation_reverse ::
  "ttm_validate_buffer list \<Rightarrow> nat \<Rightarrow> system \<Rightarrow> system" where
  "ttm_eu_backoff_reservation_reverse list 0 s = s"
| "ttm_eu_backoff_reservation_reverse list (Suc j) s =
     ttm_eu_backoff_reservation_reverse list j (dma_resv_unlock (bo (list ! j)) s)"

subsection \<open>ttm\_eu\_backoff\_reservation\<close>

fun backoff_entries :: "ttm_validate_buffer list \<Rightarrow> system \<Rightarrow> system" where
  "backoff_entries [] s = s"
| "backoff_entries (entry # rest) s =
     backoff_entries rest (dma_resv_unlock (bo entry) (ttm_bo_move_to_lru_tail (bo entry) s))"

definition ttm_eu_backoff_reservation ::
  "nat option \<Rightarrow> ttm_validate_buffer list \<Rightarrow> system \<Rightarrow> system" where
  "ttm_eu_backoff_reservation ticket list s =
     (if list = [] then s
      else
        let s1 = spin_lock s;
            s2 = backoff_entries list s1;
            s3 = spin_unlock s2
        in (case ticket of None \<Rightarrow> s3 | Some t \<Rightarrow> ww_acquire_fini t s3))"

subsection \<open>ttm\_eu\_reserve\_buffers\<close>

text \<open>One pass through the body of the \<^verbatim>\<open>list_for_each_entry\<close> loop, for the entry at
  position \<open>i\<close>. \<open>Next\<close> carries the lists, the position of the entry the loop looks at
  next and the state; \<open>Return\<close> is the \<^verbatim>\<open>return ret\<close> inside the loop.

  In the duplicate case the cursor steps back to the previous entry (possibly the list
  head), the entry is unlinked and inserted in front of \<open>dups\<close>, and \<^verbatim>\<open>continue\<close>
  advances the cursor: it lands on position \<open>i\<close> of the shortened list. After the entry
  is moved to the front, the loop advances from it, to position \<open>1\<close>.\<close>

datatype step =
    Next "ttm_validate_buffer list" "ttm_validate_buffer list option" nat system
  | Return int system

text \<open>The second half of the loop body, from the comment ``uh oh, we lost out'' on
  (lines 115 to 149): reached with the failure code \<open>ret\<close> of the lock attempt or of the
  slot reservation.\<close>

definition reserve_lost_out ::
  "env \<Rightarrow> nat option \<Rightarrow> bool \<Rightarrow> ttm_validate_buffer list \<Rightarrow> ttm_validate_buffer list option
     \<Rightarrow> nat \<Rightarrow> int \<Rightarrow> system \<Rightarrow> step" where
  "reserve_lost_out e ticket intr list dups i ret s2 =
     (let entry = list ! i;
          b = bo entry;
          s3 = ttm_eu_backoff_reservation_reverse list i s2;
          (ret, s4) =
            (if ret = - EDEADLK then
               (if intr then dma_resv_lock_slow_interruptible e b ticket s3
                else (0, dma_resv_lock_slow b ticket s3))
             else (ret, s3));
          (ret, s5) =
            (if ret = 0 \<and> num_shared entry \<noteq> 0
             then dma_resv_reserve_shared e b (num_shared entry) s4
             else (ret, s4))
      in
        if ret \<noteq> 0 then
          Return (if ret = - EINTR then - ERESTARTSYS else ret)
            (case ticket of
               None \<Rightarrow> s5
             | Some t \<Rightarrow> ww_acquire_fini t (ww_acquire_done t s5))
        else Next (list_add entry (list_del i list)) dups 1 s5)"

text \<open>The first half of the loop body (lines 94 to 113), falling through to the second.\<close>

definition reserve_entry ::
  "env \<Rightarrow> nat option \<Rightarrow> bool \<Rightarrow> ttm_validate_buffer list \<Rightarrow> ttm_validate_buffer list option
     \<Rightarrow> nat \<Rightarrow> system \<Rightarrow> step" where
  "reserve_entry e ticket intr list dups i s =
     (let entry = list ! i;
          b = bo entry;
          (ret, s1) = ttm_bo_reserve e b intr (ticket = None) ticket s
      in
        if ret = - EALREADY \<and> dups \<noteq> None then
          (case dups of
             Some d \<Rightarrow> Next (list_del i list) (Some (list_add entry d)) i s1
           | None \<Rightarrow> Return ret s1)
        else
          let (ret, s2) =
                (if ret = 0 \<and> num_shared entry \<noteq> 0
                 then dma_resv_reserve_shared e b (num_shared entry) s1
                 else (ret, s1))
          in
            if ret = 0 then Next list dups (Suc i) s2
            else reserve_lost_out e ticket intr list dups i ret s2)"

text \<open>The loop. It need not terminate when contention keeps coming back, so it is
  bounded by a number of passes. The result is what the call returns (the return value and
  the two lists as the call leaves them), or \<open>None\<close> when the bound was used up before
  the call returned, together with the state reached.\<close>

fun reserve_loop ::
  "nat \<Rightarrow> env \<Rightarrow> nat option \<Rightarrow> bool \<Rightarrow> ttm_validate_buffer list
     \<Rightarrow> ttm_validate_buffer list option \<Rightarrow> nat \<Rightarrow> system
     \<Rightarrow> (int \<times> ttm_validate_buffer list \<times> ttm_validate_buffer list option) option \<times> system"
  where
  "reserve_loop 0 e ticket intr list dups i s = (None, s)"
| "reserve_loop (Suc n) e ticket intr list dups i s =
     (if i < length list then
        (case reserve_entry e ticket intr list dups i s of
           Next list' dups' i' s' \<Rightarrow> reserve_loop n e ticket intr list' dups' i' s'
         | Return ret s' \<Rightarrow> (Some (ret, list, dups), s'))
      else (Some (0, list, dups), s))"

definition ttm_eu_reserve_buffers ::
  "nat \<Rightarrow> env \<Rightarrow> nat option \<Rightarrow> ttm_validate_buffer list \<Rightarrow> bool
     \<Rightarrow> ttm_validate_buffer list option \<Rightarrow> system
     \<Rightarrow> (int \<times> ttm_validate_buffer list \<times> ttm_validate_buffer list option) option \<times> system"
  where
  "ttm_eu_reserve_buffers fuel e ticket list intr dups s =
     (if list = [] then (Some (0, list, dups), s)
      else
        reserve_loop fuel e ticket intr list dups 0
          (case ticket of None \<Rightarrow> s | Some t \<Rightarrow> ww_acquire_init t s))"

subsection \<open>ttm\_eu\_fence\_buffer\_objects\<close>

fun fence_entries :: "nat \<Rightarrow> ttm_validate_buffer list \<Rightarrow> system \<Rightarrow> system" where
  "fence_entries fence [] s = s"
| "fence_entries fence (entry # rest) s =
     (let s1 = (if num_shared entry \<noteq> 0 then dma_resv_add_shared_fence (bo entry) fence s
                else dma_resv_add_excl_fence (bo entry) fence s)
      in fence_entries fence rest
           (dma_resv_unlock (bo entry) (ttm_bo_move_to_lru_tail (bo entry) s1)))"

definition ttm_eu_fence_buffer_objects ::
  "nat option \<Rightarrow> ttm_validate_buffer list \<Rightarrow> nat \<Rightarrow> system \<Rightarrow> system" where
  "ttm_eu_fence_buffer_objects ticket list fence s =
     (if list = [] then s
      else
        let s1 = spin_lock s;
            s2 = fence_entries fence list s1;
            s3 = spin_unlock s2
        in (case ticket of None \<Rightarrow> s3 | Some t \<Rightarrow> ww_acquire_fini t s3))"

subsection \<open>Auxiliary notions for the proofs\<close>

text \<open>The ticket holds exactly the buffers of the entries before position \<open>i\<close>: the loop
  invariant of \<^verbatim>\<open>ttm_eu_reserve_buffers\<close>.\<close>

definition holds_prefix :: "nat \<Rightarrow> ttm_validate_buffer list \<Rightarrow> nat \<Rightarrow> system \<Rightarrow> bool" where
  "holds_prefix t list i s = (\<forall>b. (holder s b = Some (Ticket t)) = (b \<in> bo ` set (take i list)))"

text \<open>The \<^verbatim>\<open>if (ticket) { ww_acquire_done(ticket); ww_acquire_fini(ticket); }\<close> of the
  failure return.\<close>

definition teardown :: "nat option \<Rightarrow> system \<Rightarrow> system" where
  "teardown ticket s =
     (case ticket of None \<Rightarrow> s | Some t \<Rightarrow> ww_acquire_fini t (ww_acquire_done t s))"

text \<open>An event of a pass in which the lock was obtained at once: no lock attempt that
  failed, no slow-path wait.\<close>

fun immediate :: "event \<Rightarrow> bool" where
  "immediate (Reserve b r) = (r = 0)"
| "immediate (LockSlow b r) = False"
| "immediate ev = True"

text \<open>What the duplicate handling is expected to leave: the entries whose buffer was not
  seen before, in list order, and the ones whose buffer was, in list order; and the
  buffers of the lock attempts in a log.\<close>

fun first_occurrences :: "nat set \<Rightarrow> ttm_validate_buffer list \<Rightarrow> ttm_validate_buffer list" where
  "first_occurrences seen [] = []"
| "first_occurrences seen (x # xs) =
     (if bo x \<in> seen then first_occurrences seen xs
      else x # first_occurrences (insert (bo x) seen) xs)"

fun later_occurrences :: "nat set \<Rightarrow> ttm_validate_buffer list \<Rightarrow> ttm_validate_buffer list" where
  "later_occurrences seen [] = []"
| "later_occurrences seen (x # xs) =
     (if bo x \<in> seen then x # later_occurrences seen xs
      else later_occurrences (insert (bo x) seen) xs)"

fun reserve_attempts :: "event list \<Rightarrow> nat list" where
  "reserve_attempts [] = []"
| "reserve_attempts (Reserve b r # evs) = b # reserve_attempts evs"
| "reserve_attempts (ev # evs) = reserve_attempts evs"

text \<open>The state a pass of the loop body leaves, the buffers unlocked in a log, in log order,
  and the passes that reach the rollback of line 119: the lock attempt was not a tolerated
  duplicate, and it failed or the slot reservation after it did.\<close>

fun step_state :: "step \<Rightarrow> system" where
  "step_state (Next list dups i s) = s"
| "step_state (Return ret s) = s"

fun unlocks :: "event list \<Rightarrow> nat list" where
  "unlocks [] = []"
| "unlocks (Unlock b # evs) = b # unlocks evs"
| "unlocks (ev # evs) = unlocks evs"

definition takes_rollback ::
  "env \<Rightarrow> nat option \<Rightarrow> bool \<Rightarrow> ttm_validate_buffer list \<Rightarrow> ttm_validate_buffer list option
     \<Rightarrow> nat \<Rightarrow> system \<Rightarrow> bool" where
  "takes_rollback e ticket intr list dups i s =
     (let entry = list ! i;
          (ret, s1) = ttm_bo_reserve e (bo entry) intr (ticket = None) ticket s
      in \<not> (ret = - EALREADY \<and> dups \<noteq> None) \<and>
         (ret \<noteq> 0 \<or>
          num_shared entry \<noteq> 0 \<and>
          fst (dma_resv_reserve_shared e (bo entry) (num_shared entry) s1) \<noteq> 0))"


subsection \<open>Concrete inputs\<close>

definition vb :: "nat \<Rightarrow> nat \<Rightarrow> ttm_validate_buffer" where
  "vb b n = \<lparr>bo = b, num_shared = n\<rparr>"

text \<open>Nothing locked, nothing fenced, an empty LRU list, no ticket in use.\<close>

definition idle :: system where
  "idle = \<lparr>holder = (\<lambda>b. None), shared_slots = (\<lambda>b. 0), fence_excl = (\<lambda>b. None),
           fence_shared = (\<lambda>b. []), lru = [], acquire_ctx = (\<lambda>t. Uninit), trace = []\<rparr>"

text \<open>Environments: \<open>calm\<close> never refuses, interrupts or runs out of slots; \<open>starved\<close>
  has no shared slots left; \<open>wounding\<close> answers every contended attempt with a deadlock
  and grants the slow-path wait; \<open>signalling\<close> does the same but delivers a signal once
  a buffer has been unlocked.\<close>

definition calm :: env where
  "calm = \<lparr>lock_contended = (\<lambda>s b. Granted), signal_pending = (\<lambda>s b. False),
           slots_exhausted = (\<lambda>s b n. False)\<rparr>"

definition starved :: env where
  "starved = \<lparr>lock_contended = (\<lambda>s b. Deadlock), signal_pending = (\<lambda>s b. False),
              slots_exhausted = (\<lambda>s b n. True)\<rparr>"

definition wounding :: env where
  "wounding = \<lparr>lock_contended = (\<lambda>s b. Deadlock), signal_pending = (\<lambda>s b. False),
               slots_exhausted = (\<lambda>s b n. False)\<rparr>"

fun is_unlock :: "event \<Rightarrow> bool" where
  "is_unlock (Unlock b) = True"
| "is_unlock ev = False"

definition signalling :: env where
  "signalling = \<lparr>lock_contended = (\<lambda>s b. Deadlock),
                 signal_pending = (\<lambda>s b. list_ex is_unlock (trace s)),
                 slots_exhausted = (\<lambda>s b n. False)\<rparr>"

section \<open>Auxiliary lemmas\<close>

lemmas errno_defs = EINTR_def ENOMEM_def EBUSY_def EDEADLK_def EALREADY_def ERESTARTSYS_def

lemma log_fields [simp]:
  "trace (log ev s) = trace s @ [ev]"
  "holder (log ev s) = holder s"
  "lru (log ev s) = lru s"
  "fence_excl (log ev s) = fence_excl s"
  "fence_shared (log ev s) = fence_shared s"
  "acquire_ctx (log ev s) = acquire_ctx s"
  "shared_slots (log ev s) = shared_slots s"
  by (simp_all add: log_def)

lemma unlock_fields [simp]:
  "trace (dma_resv_unlock b s) = trace s @ [Unlock b]"
  "holder (dma_resv_unlock b s) = (holder s)(b := None)"
  "lru (dma_resv_unlock b s) = lru s"
  "fence_excl (dma_resv_unlock b s) = fence_excl s"
  "fence_shared (dma_resv_unlock b s) = fence_shared s"
  "acquire_ctx (dma_resv_unlock b s) = acquire_ctx s"
  by (simp_all add: dma_resv_unlock_def)

lemma move_fields [simp]:
  "trace (ttm_bo_move_to_lru_tail b s) = trace s @ [MoveToLruTail b]"
  "holder (ttm_bo_move_to_lru_tail b s) = holder s"
  "lru (ttm_bo_move_to_lru_tail b s) = filter (\<lambda>x. x \<noteq> b) (lru s) @ [b]"
  "fence_excl (ttm_bo_move_to_lru_tail b s) = fence_excl s"
  "fence_shared (ttm_bo_move_to_lru_tail b s) = fence_shared s"
  "acquire_ctx (ttm_bo_move_to_lru_tail b s) = acquire_ctx s"
  by (simp_all add: ttm_bo_move_to_lru_tail_def)

lemma fini_fields [simp]:
  "trace (ww_acquire_fini t s) = trace s @ [AcquireFini t]"
  "holder (ww_acquire_fini t s) = holder s"
  "lru (ww_acquire_fini t s) = lru s"
  "fence_excl (ww_acquire_fini t s) = fence_excl s"
  "fence_shared (ww_acquire_fini t s) = fence_shared s"
  "acquire_ctx (ww_acquire_fini t s) = (acquire_ctx s)(t := Finished)"
  by (simp_all add: ww_acquire_fini_def)

lemma done_fields [simp]:
  "trace (ww_acquire_done t s) = trace s @ [AcquireDone t]"
  "holder (ww_acquire_done t s) = holder s"
  "lru (ww_acquire_done t s) = lru s"
  "acquire_ctx (ww_acquire_done t s) = (acquire_ctx s)(t := Done)"
  by (simp_all add: ww_acquire_done_def)

lemma init_fields [simp]:
  "trace (ww_acquire_init t s) = trace s @ [AcquireInit t]"
  "holder (ww_acquire_init t s) = holder s"
  "lru (ww_acquire_init t s) = lru s"
  "acquire_ctx (ww_acquire_init t s) = (acquire_ctx s)(t := Acquiring)"
  by (simp_all add: ww_acquire_init_def)

lemma spin_fields [simp]:
  "trace (spin_lock s) = trace s @ [LruLock]"
  "trace (spin_unlock s) = trace s @ [LruUnlock]"
  "holder (spin_lock s) = holder s"
  "holder (spin_unlock s) = holder s"
  "lru (spin_lock s) = lru s"
  "lru (spin_unlock s) = lru s"
  "fence_excl (spin_lock s) = fence_excl s"
  "fence_excl (spin_unlock s) = fence_excl s"
  "fence_shared (spin_lock s) = fence_shared s"
  "fence_shared (spin_unlock s) = fence_shared s"
  "acquire_ctx (spin_lock s) = acquire_ctx s"
  "acquire_ctx (spin_unlock s) = acquire_ctx s"
  by (simp_all add: spin_lock_def spin_unlock_def)

lemma shared_fence_fields [simp]:
  "trace (dma_resv_add_shared_fence b f s) = trace s @ [AddSharedFence b f]"
  "holder (dma_resv_add_shared_fence b f s) = holder s"
  "lru (dma_resv_add_shared_fence b f s) = lru s"
  "fence_excl (dma_resv_add_shared_fence b f s) = fence_excl s"
  "fence_shared (dma_resv_add_shared_fence b f s) = (fence_shared s)(b := fence_shared s b @ [f])"
  "acquire_ctx (dma_resv_add_shared_fence b f s) = acquire_ctx s"
  by (simp_all add: dma_resv_add_shared_fence_def)

lemma excl_fence_fields [simp]:
  "trace (dma_resv_add_excl_fence b f s) = trace s @ [AddExclFence b f]"
  "holder (dma_resv_add_excl_fence b f s) = holder s"
  "lru (dma_resv_add_excl_fence b f s) = lru s"
  "fence_excl (dma_resv_add_excl_fence b f s) = (fence_excl s)(b := Some f)"
  "fence_shared (dma_resv_add_excl_fence b f s) = (fence_shared s)(b := [])"
  "acquire_ctx (dma_resv_add_excl_fence b f s) = acquire_ctx s"
  by (simp_all add: dma_resv_add_excl_fence_def)

lemma take_lock_fields [simp]:
  "trace (take_lock b ticket s) = trace s"
  "holder (take_lock b ticket s) = (holder s)(b := Some (owner_of ticket))"
  "lru (take_lock b ticket s) = lru s"
  "acquire_ctx (take_lock b ticket s) = acquire_ctx s"
  by (simp_all add: take_lock_def)

lemma lock_slow_fields [simp]:
  "trace (dma_resv_lock_slow b ticket s) = trace s @ [LockSlow b 0]"
  "holder (dma_resv_lock_slow b ticket s) = (holder s)(b := Some (owner_of ticket))"
  "lru (dma_resv_lock_slow b ticket s) = lru s"
  "acquire_ctx (dma_resv_lock_slow b ticket s) = acquire_ctx s"
  by (simp_all add: dma_resv_lock_slow_def)

lemma backoff_reverse_trace:
  "i \<le> length list \<Longrightarrow>
   trace (ttm_eu_backoff_reservation_reverse list i s) =
     trace s @ map (\<lambda>x. Unlock (bo x)) (rev (take i list))"
  by (induction i arbitrary: s) (simp_all add: take_Suc_conv_app_nth)

lemma backoff_reverse_holder:
  "i \<le> length list \<Longrightarrow>
   holder (ttm_eu_backoff_reservation_reverse list i s) b =
     (if b \<in> bo ` set (take i list) then None else holder s b)"
  by (induction i arbitrary: s) (auto simp: take_Suc_conv_app_nth)

lemma backoff_reverse_lru:
  "lru (ttm_eu_backoff_reservation_reverse list i s) = lru s"
  by (induction i arbitrary: s) simp_all

lemma teardown_fields [simp]:
  "holder (teardown ticket s) = holder s"
  "lru (teardown ticket s) = lru s"
  "trace (teardown (Some t) s) = trace s @ [AcquireDone t, AcquireFini t]"
  "trace (teardown None s) = trace s"
  "acquire_ctx (teardown (Some t) s) = (acquire_ctx s)(t := Finished)"
  by (simp_all add: teardown_def split: option.splits)

lemma reserve_shared_fields [simp]:
  "holder (snd (dma_resv_reserve_shared e b n s)) = holder s"
  "lru (snd (dma_resv_reserve_shared e b n s)) = lru s"
  "acquire_ctx (snd (dma_resv_reserve_shared e b n s)) = acquire_ctx s"
  "trace (snd (dma_resv_reserve_shared e b n s)) =
     trace s @ [ReserveShared b n (fst (dma_resv_reserve_shared e b n s))]"
  "fst (dma_resv_reserve_shared e b n s) = (if slots_exhausted e s b n then - ENOMEM else 0)"
  by (simp_all add: dma_resv_reserve_shared_def)

lemma ttm_bo_reserve_fields [simp]:
  "trace (snd (ttm_bo_reserve e b intr nw ticket s)) =
     trace s @ [Reserve b (fst (ttm_bo_reserve e b intr nw ticket s))]"
  "lru (snd (ttm_bo_reserve e b intr nw ticket s)) = lru s"
  "acquire_ctx (snd (ttm_bo_reserve e b intr nw ticket s)) = acquire_ctx s"
  "holder (snd (ttm_bo_reserve e b intr nw ticket s)) =
     (if fst (ttm_bo_reserve e b intr nw ticket s) = 0
      then (holder s)(b := Some (owner_of ticket)) else holder s)"
  by (simp_all add: ttm_bo_reserve_def Let_def errno_defs split: option.splits)

lemma ttm_bo_reserve_ticket_ret:
  "fst (ttm_bo_reserve e b intr False (Some t) s) =
     (if holder s b = None then 0
      else if holder s b = Some (Ticket t) then - EALREADY
      else if intr \<and> signal_pending e s b then - ERESTARTSYS
      else if lock_contended e s b = Deadlock then - EDEADLK
      else 0)"
  by (auto simp: ttm_bo_reserve_def Let_def owner_of_def split: option.splits)

lemma lost_out_flat:
  "ret \<noteq> 0 \<Longrightarrow>
   reserve_lost_out e ticket intr list dups i ret s2 =
     (let entry = list ! i; b = bo entry; n = num_shared entry;
          s3 = ttm_eu_backoff_reservation_reverse list i s2
      in
        if ret \<noteq> - EDEADLK
        then Return (if ret = - EINTR then - ERESTARTSYS else ret) (teardown ticket s3)
        else if intr \<and> signal_pending e s3 b
        then Return (- ERESTARTSYS) (teardown ticket (log (LockSlow b (- EINTR)) s3))
        else
          let s4 = dma_resv_lock_slow b ticket s3 in
            if n \<noteq> 0 \<and> slots_exhausted e s4 b n
            then Return (- ENOMEM) (teardown ticket (log (ReserveShared b n (- ENOMEM)) s4))
            else Next (list_add entry (list_del i list)) dups 1
                   (if n = 0 then s4 else snd (dma_resv_reserve_shared e b n s4)))"
  by (simp add: reserve_lost_out_def Let_def teardown_def dma_resv_lock_slow_interruptible_def
      dma_resv_reserve_shared_def errno_defs)

lemma reserve_entry_flat:
  "reserve_entry e ticket intr list dups i s =
     (let entry = list ! i; b = bo entry; n = num_shared entry;
          r = ttm_bo_reserve e b intr (ticket = None) ticket s;
          ret = fst r; s1 = snd r
      in
        if ret = - EALREADY \<and> dups \<noteq> None
        then Next (list_del i list) (Some (list_add entry (the dups))) i s1
        else if ret \<noteq> 0 then reserve_lost_out e ticket intr list dups i ret s1
        else if n = 0 then Next list dups (Suc i) s1
        else if slots_exhausted e s1 b n
        then reserve_lost_out e ticket intr list dups i (- ENOMEM)
               (log (ReserveShared b n (- ENOMEM)) s1)
        else Next list dups (Suc i) (snd (dma_resv_reserve_shared e b n s1)))"
  by (auto simp: reserve_entry_def Let_def dma_resv_reserve_shared_def errno_defs
      split: prod.splits option.splits)

lemma lost_out_Next:
  assumes "reserve_lost_out e ticket intr list dups i ret s2 = Next l1 d1 i1 s1"
    and "ret \<noteq> 0" and "i \<le> length list"
  shows "ret = - EDEADLK \<and> l1 = list_add (list ! i) (list_del i list) \<and> d1 = dups \<and> i1 = 1 \<and>
         lru s1 = lru s2 \<and>
         (\<forall>b. holder s1 b =
            (if b = bo (list ! i) then Some (owner_of ticket)
             else if b \<in> bo ` set (take i list) then None else holder s2 b)) \<and>
         (\<exists>evs. trace s1 =
            trace s2 @ map (\<lambda>x. Unlock (bo x)) (rev (take i list)) @ LockSlow (bo (list ! i)) 0 # evs \<and>
            (evs = [] \<or> evs = [ReserveShared (bo (list ! i)) (num_shared (list ! i)) 0]))"
  using assms
  by (auto simp: lost_out_flat Let_def backoff_reverse_trace backoff_reverse_holder
      backoff_reverse_lru split: if_splits)

lemma lost_out_Return:
  assumes "reserve_lost_out e (Some t) intr list dups i ret s2 = Return r s1"
    and "ret \<noteq> 0" and "i \<le> length list"
  shows "r \<noteq> 0 \<and> lru s1 = lru s2 \<and> acquire_ctx s1 t = Finished \<and>
         (r \<noteq> - ENOMEM \<or> ret = - ENOMEM \<longrightarrow>
           (\<forall>b. holder s1 b = (if b \<in> bo ` set (take i list) then None else holder s2 b))) \<and>
         (\<exists>evs. trace s1 = trace s2 @ map (\<lambda>x. Unlock (bo x)) (rev (take i list)) @ evs @
                   [AcquireDone t, AcquireFini t] \<and>
            (evs = [] \<and> r = (if ret = - EINTR then - ERESTARTSYS else ret) \<and>
               ret \<noteq> - EDEADLK \<or>
             evs = [LockSlow (bo (list ! i)) (- EINTR)] \<and> r = - ERESTARTSYS \<and>
               ret = - EDEADLK \<or>
             evs = [LockSlow (bo (list ! i)) 0,
                    ReserveShared (bo (list ! i)) (num_shared (list ! i)) (- ENOMEM)] \<and>
               r = - ENOMEM \<and> ret = - EDEADLK))"
  using assms
  by (auto simp: lost_out_flat Let_def backoff_reverse_trace backoff_reverse_holder
      backoff_reverse_lru errno_defs split: if_splits)

lemma take_list_del: "i \<le> length xs \<Longrightarrow> take i (list_del i xs) = take i xs"
  by (simp add: list_del_def)

lemma length_list_del: "i < length xs \<Longrightarrow> length (list_del i xs) = length xs - 1"
  by (simp add: list_del_def)

lemma entry_Next_inv:
  assumes "reserve_entry e (Some t) intr list dups i s = Next l1 d1 i1 s1"
    and "i < length list" and "holds_prefix t list i s"
  shows "holds_prefix t l1 i1 s1 \<and> i1 \<le> length l1 \<and> lru s1 = lru s \<and>
         (\<exists>evs. trace s1 = trace s @ evs \<and> (\<forall>b. LockSlow b (- EINTR) \<notin> set evs))"
proof -
  let ?b = "bo (list ! i)"
  let ?r = "ttm_bo_reserve e ?b intr False (Some t) s"
  from assms(2) have le: "i \<le> length list" by simp
  consider (dup) "fst ?r = - EALREADY" "dups \<noteq> None"
    | (lost) "\<not> (fst ?r = - EALREADY \<and> dups \<noteq> None)" "fst ?r \<noteq> 0"
    | (ok) "fst ?r = 0"
    by blast
  then show ?thesis
  proof cases
    case dup
    with assms(1) have eq: "l1 = list_del i list" "i1 = i" "s1 = snd ?r"
      by (auto simp: reserve_entry_flat Let_def)
    from dup have "holder s1 = holder s"
      by (simp add: eq errno_defs)
    with assms(2,3) dup show ?thesis
      by (simp add: eq holds_prefix_def take_list_del length_list_del errno_defs)
  next
    case lost
    with assms(1) have lo: "reserve_lost_out e (Some t) intr list dups i (fst ?r) (snd ?r)
        = Next l1 d1 i1 s1"
      by (auto simp: reserve_entry_flat Let_def split: if_splits)
    from lost_out_Next [OF lo lost(2) le] lost assms(2,3) show ?thesis
      apply (clarsimp simp: holds_prefix_def list_add_def owner_of_def errno_defs)
      by auto
  next
    case ok
    with assms(1) have eq: "l1 = list" "i1 = Suc i"
      and s1: "s1 = snd ?r \<or> s1 = snd (dma_resv_reserve_shared e ?b (num_shared (list ! i)) (snd ?r))
                 \<and> \<not> slots_exhausted e (snd ?r) ?b (num_shared (list ! i))"
      by (auto simp: reserve_entry_flat Let_def lost_out_flat errno_defs split: if_splits)
    from s1 ok have h: "holder s1 = (holder s)(?b := Some (Ticket t))" and l: "lru s1 = lru s"
      by (auto simp: owner_of_def)
    from s1 ok have tr: "\<exists>evs. trace s1 = trace s @ evs \<and> (\<forall>b. LockSlow b (- EINTR) \<notin> set evs)"
      by auto
    from assms(2,3) h have "holds_prefix t l1 i1 s1"
      by (auto simp: eq holds_prefix_def take_Suc_conv_app_nth)
    with assms(2) l tr show ?thesis by (simp add: eq)
  qed
qed

lemma entry_Return:
  assumes "reserve_entry e (Some t) intr list dups i s = Return ret s1"
    and "i < length list" and "holds_prefix t list i s"
  shows "ret \<noteq> 0 \<and> lru s1 = lru s \<and> acquire_ctx s1 t = Finished \<and>
         (ret \<noteq> - ENOMEM \<longrightarrow> (\<forall>b. holder s1 b \<noteq> Some (Ticket t))) \<and>
         (\<exists>evs. trace s1 = trace s @ evs @ [AcquireDone t, AcquireFini t] \<and>
            (\<forall>b. LockSlow b (- EINTR) \<in> set evs \<longrightarrow> ret = - ERESTARTSYS))"
proof -
  let ?b = "bo (list ! i)"
  let ?n = "num_shared (list ! i)"
  let ?r = "ttm_bo_reserve e ?b intr False (Some t) s"
  from assms(2) have le: "i \<le> length list" by simp
  from assms(1) consider
      (lost) "fst ?r \<noteq> 0"
        "reserve_lost_out e (Some t) intr list dups i (fst ?r) (snd ?r) = Return ret s1"
    | (alloc) "fst ?r = 0"
        "reserve_lost_out e (Some t) intr list dups i (- ENOMEM)
           (log (ReserveShared ?b ?n (- ENOMEM)) (snd ?r)) = Return ret s1"
    by (auto simp: reserve_entry_flat Let_def split: if_splits)
  then show ?thesis
  proof cases
    case lost
    have ne: "fst ?r \<noteq> - ENOMEM"
      by (simp add: ttm_bo_reserve_ticket_ret errno_defs)
    from lost(1) have h: "holder (snd ?r) = holder s" by simp
    from lost_out_Return [OF lost(2) lost(1) le] h ne assms(3) show ?thesis
      apply (clarsimp simp: holds_prefix_def)
      by (auto simp: errno_defs)
  next
    case alloc
    have nz: "- ENOMEM \<noteq> (0::int)" by (simp add: errno_defs)
    from lost_out_Return [OF alloc(2) nz le] show ?thesis
      by (auto simp: errno_defs)
  qed
qed

lemma reserve_loop_unwinds:
  assumes "reserve_loop n e (Some t) intr list dups i s = (r, s')"
    and "i \<le> length list" and "holds_prefix t list i s"
  shows "lru s' = lru s \<and>
         (\<exists>evs. trace s' = trace s @ evs \<and>
            (\<forall>b. LockSlow b (- EINTR) \<in> set evs \<longrightarrow> (\<exists>l' d'. r = Some (- ERESTARTSYS, l', d'))) \<and>
            (\<forall>ret l' d'. r = Some (ret, l', d') \<longrightarrow> ret \<noteq> 0 \<longrightarrow>
               acquire_ctx s' t = Finished \<and>
               (ret \<noteq> - ENOMEM \<longrightarrow> (\<forall>b. holder s' b \<noteq> Some (Ticket t))) \<and>
               (\<exists>pre. evs = pre @ [AcquireDone t, AcquireFini t])))"
  using assms
proof (induction n arbitrary: list dups i s)
  case 0
  then have "r = None" "s' = s" by simp_all
  then show ?case by simp
next
  case (Suc n)
  show ?case
  proof (cases "i < length list")
    case False
    with Suc.prems(1) have "r = Some (0, list, dups)" "s' = s" by simp_all
    then show ?thesis by simp
  next
    case True
    show ?thesis
    proof (cases "reserve_entry e (Some t) intr list dups i s")
      case (Next l1 d1 i1 s1)
      from entry_Next_inv [OF Next True Suc.prems(3)]
      obtain evs1 where inv: "holds_prefix t l1 i1 s1" "i1 \<le> length l1" "lru s1 = lru s"
        and tr1: "trace s1 = trace s @ evs1" "\<forall>b. LockSlow b (- EINTR) \<notin> set evs1"
        by blast
      from Suc.prems(1) True Next
      have rest: "reserve_loop n e (Some t) intr l1 d1 i1 s1 = (r, s')"
        by simp
      from Suc.IH [OF rest inv(2) inv(1)]
      obtain evs2 where a: "lru s' = lru s1"
        and tr2: "trace s' = trace s1 @ evs2"
          "\<forall>b. LockSlow b (- EINTR) \<in> set evs2 \<longrightarrow> (\<exists>l' d'. r = Some (- ERESTARTSYS, l', d'))"
          "\<forall>ret l' d'. r = Some (ret, l', d') \<longrightarrow> ret \<noteq> 0 \<longrightarrow>
               acquire_ctx s' t = Finished \<and>
               (ret \<noteq> - ENOMEM \<longrightarrow> (\<forall>b. holder s' b \<noteq> Some (Ticket t))) \<and>
               (\<exists>pre. evs2 = pre @ [AcquireDone t, AcquireFini t])"
        by (elim conjE exE) (rule that, assumption+)
      have t1: "trace s' = trace s @ (evs1 @ evs2)"
        by (simp add: tr1(1) tr2(1))
      have t2: "\<forall>b. LockSlow b (- EINTR) \<in> set (evs1 @ evs2) \<longrightarrow>
                  (\<exists>l' d'. r = Some (- ERESTARTSYS, l', d'))"
        using tr1(2) tr2(2) by simp
      have t3: "\<forall>ret l' d'. r = Some (ret, l', d') \<longrightarrow> ret \<noteq> 0 \<longrightarrow>
               acquire_ctx s' t = Finished \<and>
               (ret \<noteq> - ENOMEM \<longrightarrow> (\<forall>b. holder s' b \<noteq> Some (Ticket t))) \<and>
               (\<exists>pre. evs1 @ evs2 = pre @ [AcquireDone t, AcquireFini t])"
      proof (intro allI impI)
        fix ret l' d'
        assume "r = Some (ret, l', d')" "ret \<noteq> 0"
        with tr2(3) obtain pre where c: "acquire_ctx s' t = Finished"
            "ret \<noteq> - ENOMEM \<longrightarrow> (\<forall>b. holder s' b \<noteq> Some (Ticket t))"
            "evs2 = pre @ [AcquireDone t, AcquireFini t]"
          by blast
        from c(3) have "evs1 @ evs2 = (evs1 @ pre) @ [AcquireDone t, AcquireFini t]" by simp
        then have "\<exists>pre. evs1 @ evs2 = pre @ [AcquireDone t, AcquireFini t]" by blast
        with c(1,2) show "acquire_ctx s' t = Finished \<and>
               (ret \<noteq> - ENOMEM \<longrightarrow> (\<forall>b. holder s' b \<noteq> Some (Ticket t))) \<and>
               (\<exists>pre. evs1 @ evs2 = pre @ [AcquireDone t, AcquireFini t])"
          by blast
      qed
      from t1 t2 t3 a inv(3) show ?thesis by (intro conjI exI [of _ "evs1 @ evs2"]) simp_all
    next
      case (Return ret s1)
      with Suc.prems(1) True have eq: "r = Some (ret, list, dups)" "s1 = s'" by simp_all
      from entry_Return [OF Return True Suc.prems(3)]
      obtain evs where b: "ret \<noteq> 0" "lru s' = lru s" "acquire_ctx s' t = Finished"
          "ret \<noteq> - ENOMEM \<longrightarrow> (\<forall>b. holder s' b \<noteq> Some (Ticket t))"
        and tr: "trace s' = trace s @ evs @ [AcquireDone t, AcquireFini t]"
          "\<forall>b. LockSlow b (- EINTR) \<in> set evs \<longrightarrow> ret = - ERESTARTSYS"
        unfolding eq by blast
      have t2: "\<forall>b. LockSlow b (- EINTR) \<in> set (evs @ [AcquireDone t, AcquireFini t])
              \<longrightarrow> (\<exists>l' d'. r = Some (- ERESTARTSYS, l', d'))"
        using tr(2) eq(1) by simp
      have t3: "\<forall>ret' l' d'. r = Some (ret', l', d') \<longrightarrow> ret' \<noteq> 0 \<longrightarrow>
               acquire_ctx s' t = Finished \<and>
               (ret' \<noteq> - ENOMEM \<longrightarrow> (\<forall>b. holder s' b \<noteq> Some (Ticket t))) \<and>
               (\<exists>pre. evs @ [AcquireDone t, AcquireFini t] = pre @ [AcquireDone t, AcquireFini t])"
        using b eq(1) by simp
      from tr(1) t2 t3 b(2) show ?thesis
        by (intro conjI exI [of _ "evs @ [AcquireDone t, AcquireFini t]"]) simp_all
    qed
  qed
qed

lemmas model_defs = ttm_eu_reserve_buffers_def reserve_entry_def reserve_lost_out_def
  ttm_bo_reserve_def take_lock_def
  dma_resv_reserve_shared_def dma_resv_lock_slow_def dma_resv_lock_slow_interruptible_def
  dma_resv_unlock_def ww_acquire_init_def ww_acquire_done_def ww_acquire_fini_def log_def
  owner_of_def list_del_def list_add_def errno_defs

lemma signalling_run:
  "ttm_eu_reserve_buffers 3 signalling (Some 7) [vb 1 0, vb 2 0] True None
     (idle\<lparr>holder := (holder idle)(2 := Some (Ticket 3))\<rparr>) =
   (Some (- ERESTARTSYS, [vb 1 0, vb 2 0], None),
     idle\<lparr>holder := (holder idle)(2 := Some (Ticket 3), 1 := None),
          acquire_ctx := (acquire_ctx idle)(7 := Finished),
          trace := [AcquireInit 7, Reserve 1 0, Reserve 2 (- EDEADLK), Unlock 1,
                    LockSlow 2 (- EINTR), AcquireDone 7, AcquireFini 7]\<rparr>)"
  by (simp add: model_defs signalling_def idle_def vb_def numeral_3_eq_3 fun_upd_twist)

lemma lost_out_Return_trace:
  assumes "reserve_lost_out e ticket intr list dups i ret s2 = Return r s1"
    and "ret \<noteq> 0" and "i \<le> length list"
  shows "\<exists>evs. trace s1 = trace s2 @ evs \<and>
           (\<forall>b. Reserve b (- EALREADY) \<notin> set evs) \<and>
           (ret = - EALREADY \<longrightarrow> r = - EALREADY)"
  using assms
  by (cases ticket)
     (auto simp: lost_out_flat Let_def backoff_reverse_trace errno_defs split: if_splits)

lemma entry_Next_frame:
  assumes "reserve_entry e ticket intr list dups i s = Next l1 d1 i1 s1"
    and "i < length list"
  shows "\<exists>evs. trace s1 = trace s @ evs \<and>
           (list_all immediate evs \<longrightarrow> l1 = list \<and> d1 = dups) \<and>
           (dups = None \<longrightarrow> d1 = None \<and> (\<forall>b. Reserve b (- EALREADY) \<notin> set evs))"
proof -
  let ?b = "bo (list ! i)"
  let ?r = "ttm_bo_reserve e ?b intr (ticket = None) ticket s"
  from assms(2) have le: "i \<le> length list" by simp
  consider (dup) "fst ?r = - EALREADY" "dups \<noteq> None"
    | (lost) "\<not> (fst ?r = - EALREADY \<and> dups \<noteq> None)" "fst ?r \<noteq> 0"
    | (ok) "fst ?r = 0"
    by blast
  then show ?thesis
  proof cases
    case dup
    with assms(1) have "s1 = snd ?r"
      by (auto simp: reserve_entry_flat Let_def)
    with dup show ?thesis by (simp add: errno_defs)
  next
    case lost
    with assms(1) have lo: "reserve_lost_out e ticket intr list dups i (fst ?r) (snd ?r)
        = Next l1 d1 i1 s1"
      by (auto simp: reserve_entry_flat Let_def split: if_splits)
    from lost_out_Next [OF lo lost(2) le] lost show ?thesis
      by (auto simp: errno_defs)
  next
    case ok
    from ok assms(1) have eq: "l1 = list" "d1 = dups"
      by (auto simp: reserve_entry_flat Let_def lost_out_flat errno_defs split: if_splits)
    from ok assms(1)
    have s1: "s1 = snd ?r \<or> s1 = snd (dma_resv_reserve_shared e ?b (num_shared (list ! i)) (snd ?r))"
      by (auto simp: reserve_entry_flat Let_def lost_out_flat errno_defs split: if_splits)
    from s1 ok eq show ?thesis by (auto simp: errno_defs)
  qed
qed

lemma entry_Return_trace:
  assumes "reserve_entry e ticket intr list dups i s = Return ret s1"
    and "i < length list"
  shows "\<exists>evs. trace s1 = trace s @ evs \<and>
           (\<forall>b. Reserve b (- EALREADY) \<in> set evs \<longrightarrow> ret = - EALREADY)"
proof -
  let ?b = "bo (list ! i)"
  let ?n = "num_shared (list ! i)"
  let ?r = "ttm_bo_reserve e ?b intr (ticket = None) ticket s"
  from assms(2) have le: "i \<le> length list" by simp
  from assms(1) consider
      (lost) "fst ?r \<noteq> 0"
        "reserve_lost_out e ticket intr list dups i (fst ?r) (snd ?r) = Return ret s1"
    | (alloc) "fst ?r = 0"
        "reserve_lost_out e ticket intr list dups i (- ENOMEM)
           (log (ReserveShared ?b ?n (- ENOMEM)) (snd ?r)) = Return ret s1"
    by (auto simp: reserve_entry_flat Let_def split: if_splits)
  then show ?thesis
  proof cases
    case lost
    from lost_out_Return_trace [OF lost(2) lost(1) le] show ?thesis
      by auto
  next
    case alloc
    have nz: "- ENOMEM \<noteq> (0::int)" by (simp add: errno_defs)
    from lost_out_Return_trace [OF alloc(2) nz le] alloc(1) show ?thesis
      by (auto simp: errno_defs)
  qed
qed

lemma reserve_loop_frame:
  assumes "reserve_loop n e ticket intr list dups i s = (r, s')"
  shows "\<exists>evs. trace s' = trace s @ evs \<and>
           (list_all immediate evs \<longrightarrow>
              (\<forall>ret l' d'. r = Some (ret, l', d') \<longrightarrow> l' = list \<and> d' = dups)) \<and>
           (dups = None \<longrightarrow> (\<forall>b. Reserve b (- EALREADY) \<in> set evs \<longrightarrow>
              (\<exists>l' d'. r = Some (- EALREADY, l', d'))))"
  using assms
proof (induction n arbitrary: list dups i s)
  case 0
  then have "r = None" "s' = s" by simp_all
  then show ?case by simp
next
  case (Suc n)
  show ?case
  proof (cases "i < length list")
    case False
    with Suc.prems have "r = Some (0, list, dups)" "s' = s" by simp_all
    then show ?thesis by simp
  next
    case True
    show ?thesis
    proof (cases "reserve_entry e ticket intr list dups i s")
      case (Next l1 d1 i1 s1)
      from entry_Next_frame [OF Next True]
      obtain evs1 where tr1: "trace s1 = trace s @ evs1"
          "list_all immediate evs1 \<longrightarrow> l1 = list \<and> d1 = dups"
          "dups = None \<longrightarrow> d1 = None \<and> (\<forall>b. Reserve b (- EALREADY) \<notin> set evs1)"
        by blast
      from Suc.prems True Next
      have rest: "reserve_loop n e ticket intr l1 d1 i1 s1 = (r, s')"
        by simp
      from Suc.IH [OF rest]
      obtain evs2 where tr2: "trace s' = trace s1 @ evs2"
          "list_all immediate evs2 \<longrightarrow>
             (\<forall>ret l' d'. r = Some (ret, l', d') \<longrightarrow> l' = l1 \<and> d' = d1)"
          "d1 = None \<longrightarrow> (\<forall>b. Reserve b (- EALREADY) \<in> set evs2 \<longrightarrow>
             (\<exists>l' d'. r = Some (- EALREADY, l', d')))"
        by (elim conjE exE) (rule that, assumption+)
      have t1: "trace s' = trace s @ (evs1 @ evs2)"
        by (simp add: tr1(1) tr2(1))
      have t2: "list_all immediate (evs1 @ evs2) \<longrightarrow>
             (\<forall>ret l' d'. r = Some (ret, l', d') \<longrightarrow> l' = list \<and> d' = dups)"
        using tr1(2) tr2(2) by auto
      have t3: "dups = None \<longrightarrow>
          (\<forall>b. Reserve b (- EALREADY) \<in> set (evs1 @ evs2) \<longrightarrow>
             (\<exists>l' d'. r = Some (- EALREADY, l', d')))"
        using tr1(3) tr2(3) by auto
      from t1 t2 t3 show ?thesis by (intro exI [of _ "evs1 @ evs2"] conjI)
    next
      case (Return ret s1)
      with Suc.prems True have eq: "r = Some (ret, list, dups)" "s1 = s'" by simp_all
      from entry_Return_trace [OF Return True]
      obtain evs where tr: "trace s' = trace s @ evs"
          "\<forall>b. Reserve b (- EALREADY) \<in> set evs \<longrightarrow> ret = - EALREADY"
        unfolding eq by blast
      from tr eq(1) show ?thesis
        by (intro exI [of _ evs] conjI) simp_all
    qed
  qed
qed

lemma calm_run:
  "ttm_eu_reserve_buffers 3 calm (Some 7) [vb 1 0, vb 2 1] False (Some []) idle =
   (Some (0, [vb 1 0, vb 2 1], Some []),
     idle\<lparr>holder := (holder idle)(1 := Some (Ticket 7), 2 := Some (Ticket 7)),
          shared_slots := (shared_slots idle)(2 := 1),
          acquire_ctx := (acquire_ctx idle)(7 := Acquiring),
          trace := [AcquireInit 7, Reserve 1 0, Reserve 2 0, ReserveShared 2 1 0]\<rparr>)"
  by (simp add: model_defs calm_def idle_def vb_def numeral_3_eq_3)

lemma twice_run:
  "ttm_eu_reserve_buffers 3 calm (Some 7) [vb 1 0, vb 1 1] False None idle =
   (Some (- EALREADY, [vb 1 0, vb 1 1], None),
     idle\<lparr>holder := (holder idle)(1 := None),
          acquire_ctx := (acquire_ctx idle)(7 := Finished),
          trace := [AcquireInit 7, Reserve 1 0, Reserve 1 (- EALREADY), Unlock 1,
                    AcquireDone 7, AcquireFini 7]\<rparr>)"
  by (simp add: model_defs calm_def idle_def vb_def numeral_3_eq_3)

lemma backoff_entries_trace:
  "trace (backoff_entries list s) =
     trace s @ concat (map (\<lambda>x. [MoveToLruTail (bo x), Unlock (bo x)]) list)"
  by (induction list arbitrary: s) simp_all

lemma backoff_entries_lru:
  "distinct (map bo list) \<Longrightarrow>
   lru (backoff_entries list s) = filter (\<lambda>x. x \<notin> bo ` set list) (lru s) @ map bo list"
proof (induction list arbitrary: s)
  case Nil
  then show ?case by simp
next
  case (Cons x xs)
  from Cons.prems have d: "distinct (map bo xs)" and nin: "bo x \<notin> bo ` set xs" by simp_all
  have f: "filter (\<lambda>y. y \<notin> bo ` set xs) (filter (\<lambda>y. y \<noteq> bo x) (lru s)) =
           filter (\<lambda>y. y \<notin> bo ` set (x # xs)) (lru s)"
    by (simp add: conj_commute)
  show ?case
    using nin by (simp add: Cons.IH [OF d] f del: set_simps image_insert) simp
qed

lemma backoff_entries_holder:
  "holder (backoff_entries list s) b = (if b \<in> bo ` set list then None else holder s b)"
  by (induction list arbitrary: s) auto

lemma backoff_entries_ctx:
  "acquire_ctx (backoff_entries list s) = acquire_ctx s"
  by (induction list arbitrary: s) simp_all

lemma fence_entries_trace:
  "trace (fence_entries f list s) =
     trace s @ concat (map (\<lambda>x.
       [if num_shared x \<noteq> 0 then AddSharedFence (bo x) f else AddExclFence (bo x) f,
        MoveToLruTail (bo x), Unlock (bo x)]) list)"
  by (induction list arbitrary: s) (simp_all add: Let_def)

lemma fence_entries_lru:
  "distinct (map bo list) \<Longrightarrow>
   lru (fence_entries f list s) = filter (\<lambda>x. x \<notin> bo ` set list) (lru s) @ map bo list"
proof (induction list arbitrary: s)
  case Nil
  then show ?case by simp
next
  case (Cons x xs)
  from Cons.prems have d: "distinct (map bo xs)" and nin: "bo x \<notin> bo ` set xs" by simp_all
  have f: "filter (\<lambda>y. y \<notin> bo ` set xs) (filter (\<lambda>y. y \<noteq> bo x) (lru s)) =
           filter (\<lambda>y. y \<notin> bo ` set (x # xs)) (lru s)"
    by (simp add: conj_commute)
  show ?case
    using nin by (simp add: Cons.IH [OF d] f Let_def del: set_simps image_insert) simp
qed

lemma fence_entries_holder:
  "holder (fence_entries f list s) b = (if b \<in> bo ` set list then None else holder s b)"
  by (induction list arbitrary: s) (auto simp: Let_def)

lemma fence_entries_ctx:
  "acquire_ctx (fence_entries f list s) = acquire_ctx s"
  by (induction list arbitrary: s) (simp_all add: Let_def)

lemma fence_entries_untouched:
  "b \<notin> bo ` set list \<Longrightarrow>
   fence_excl (fence_entries f list s) b = fence_excl s b \<and>
   fence_shared (fence_entries f list s) b = fence_shared s b"
  by (induction list arbitrary: s) (simp_all add: Let_def)

lemma fence_entries_excl_kept:
  "fence_excl s b = Some f \<Longrightarrow> fence_excl (fence_entries f list s) b = Some f"
  by (induction list arbitrary: s) (simp_all add: Let_def)

lemma fence_entries_excl:
  "entry \<in> set list \<Longrightarrow> num_shared entry = 0 \<Longrightarrow>
   fence_excl (fence_entries f list s) (bo entry) = Some f"
proof (induction list arbitrary: s)
  case Nil
  then show ?case by simp
next
  case (Cons x xs)
  show ?case
  proof (cases "entry = x")
    case True
    with Cons.prems(2) show ?thesis
      by (simp add: Let_def fence_entries_excl_kept)
  next
    case False
    with Cons.prems have "entry \<in> set xs" by simp
    from Cons.IH [OF this Cons.prems(2)] show ?thesis by (simp add: Let_def)
  qed
qed

lemma fence_entries_shared:
  "entry \<in> set list \<Longrightarrow> distinct (map bo list) \<Longrightarrow> num_shared entry \<noteq> 0 \<Longrightarrow>
   fence_shared (fence_entries f list s) (bo entry) = fence_shared s (bo entry) @ [f] \<and>
   fence_excl (fence_entries f list s) (bo entry) = fence_excl s (bo entry)"
proof (induction list arbitrary: s)
  case Nil
  then show ?case by simp
next
  case (Cons x xs)
  from Cons.prems(2) have d: "distinct (map bo xs)" and nin: "bo x \<notin> bo ` set xs" by simp_all
  show ?case
  proof (cases "entry = x")
    case True
    with Cons.prems(3) nin show ?thesis
      by (simp add: Let_def fence_entries_untouched)
  next
    case False
    with Cons.prems(1) have mem: "entry \<in> set xs" by simp
    with nin have "bo entry \<noteq> bo x" by (metis imageI)
    with Cons.IH [OF mem d Cons.prems(3)] show ?thesis
      by (simp add: Let_def)
  qed
qed

lemma starved_fast_run:
  "ttm_eu_reserve_buffers 2 starved (Some 7) [vb 1 1] False None idle =
   (Some (- ENOMEM, [vb 1 1], None),
     idle\<lparr>holder := (holder idle)(1 := Some (Ticket 7)),
          acquire_ctx := (acquire_ctx idle)(7 := Finished),
          trace := [AcquireInit 7, Reserve 1 0, ReserveShared 1 1 (- ENOMEM),
                    AcquireDone 7, AcquireFini 7]\<rparr>)"
  by (simp add: model_defs starved_def idle_def vb_def numeral_2_eq_2)

lemma starved_slow_run:
  "ttm_eu_reserve_buffers 2 starved (Some 7) [vb 1 0, vb 2 1] False None
     (idle\<lparr>holder := (holder idle)(2 := Some (Ticket 3))\<rparr>) =
   (Some (- ENOMEM, [vb 1 0, vb 2 1], None),
     idle\<lparr>holder := (holder idle)(2 := Some (Ticket 7), 1 := None),
          acquire_ctx := (acquire_ctx idle)(7 := Finished),
          trace := [AcquireInit 7, Reserve 1 0, Reserve 2 (- EDEADLK), Unlock 1,
                    LockSlow 2 0, ReserveShared 2 1 (- ENOMEM),
                    AcquireDone 7, AcquireFini 7]\<rparr>)"
  by (simp add: model_defs starved_def idle_def vb_def numeral_2_eq_2 fun_upd_twist)

lemma wounding_run:
  "ttm_eu_reserve_buffers 4 wounding (Some 7) [vb 1 0, vb 2 0] False (Some [])
     (idle\<lparr>holder := (holder idle)(2 := Some (Ticket 3))\<rparr>) =
   (Some (0, [vb 2 0, vb 1 0], Some []),
     idle\<lparr>holder := (holder idle)(2 := Some (Ticket 7), 1 := Some (Ticket 7)),
          acquire_ctx := (acquire_ctx idle)(7 := Acquiring),
          trace := [AcquireInit 7, Reserve 1 0, Reserve 2 (- EDEADLK), Unlock 1,
                    LockSlow 2 0, Reserve 1 0]\<rparr>)"
  by (simp add: model_defs wounding_def idle_def vb_def eval_nat_numeral fun_upd_twist)

lemma reserve_attempts_append:
  "reserve_attempts (xs @ ys) = reserve_attempts xs @ reserve_attempts ys"
  by (induction xs rule: reserve_attempts.induct) simp_all



lemma entry_duplicate:
  assumes "holder s (bo (list ! i)) = Some (Ticket t)"
  shows "reserve_entry e (Some t) intr list (Some d) i s =
           Next (list_del i list) (Some (list ! i # d)) i
             (log (Reserve (bo (list ! i)) (- EALREADY)) s)"
  using assms
  by (simp add: reserve_entry_def ttm_bo_reserve_def Let_def owner_of_def list_add_def)

lemma entry_granted:
  assumes "holder s (bo (list ! i)) \<noteq> Some (Ticket t)"
    and "\<forall>s b. lock_contended e s b = Granted" and "\<forall>s b. \<not> signal_pending e s b"
    and "\<forall>s b n. \<not> slots_exhausted e s b n"
  shows "\<exists>s1. reserve_entry e (Some t) intr list dups i s = Next list dups (Suc i) s1 \<and>
           holder s1 = (holder s)(bo (list ! i) := Some (Ticket t)) \<and>
           (\<exists>evs. trace s1 = trace s @ Reserve (bo (list ! i)) 0 # evs \<and>
                  reserve_attempts evs = [])"
proof -
  let ?b = "bo (list ! i)"
  let ?r = "ttm_bo_reserve e ?b intr False (Some t) s"
  from assms have z: "fst ?r = 0"
    by (simp add: ttm_bo_reserve_ticket_ret)
  have na: "(0::int) \<noteq> - EALREADY" by (simp add: errno_defs)
  show ?thesis
  proof (cases "num_shared (list ! i) = 0")
    case True
    with z na have "reserve_entry e (Some t) intr list dups i s = Next list dups (Suc i) (snd ?r)"
      by (simp add: reserve_entry_flat Let_def)
    moreover from z have "holder (snd ?r) = (holder s)(?b := Some (Ticket t))"
      by (simp add: owner_of_def)
    moreover from z have "trace (snd ?r) = trace s @ Reserve ?b 0 # []"
      by simp
    ultimately show ?thesis by (metis reserve_attempts.simps(1))
  next
    case False
    let ?s2 = "snd (dma_resv_reserve_shared e ?b (num_shared (list ! i)) (snd ?r))"
    from False z na assms(4)
    have "reserve_entry e (Some t) intr list dups i s = Next list dups (Suc i) ?s2"
      by (simp add: reserve_entry_flat Let_def)
    moreover from z have "holder ?s2 = (holder s)(?b := Some (Ticket t))"
      by (simp add: owner_of_def)
    moreover from z assms(4)
    have "trace ?s2 = trace s @ Reserve ?b 0 # [ReserveShared ?b (num_shared (list ! i)) 0]"
      by simp
    moreover have "reserve_attempts [ReserveShared ?b (num_shared (list ! i)) 0] = []"
      by simp
    ultimately show ?thesis by blast
  qed
qed

lemma duplicate_scan:
  assumes env: "\<forall>s b. lock_contended e s b = Granted" "\<forall>s b. \<not> signal_pending e s b"
      "\<forall>s b n. \<not> slots_exhausted e s b n"
  shows "holds_prefix t (pre @ rest) (length pre) s \<Longrightarrow> length rest < n \<Longrightarrow>
     \<exists>s'. reserve_loop n e (Some t) intr (pre @ rest) (Some d) (length pre) s =
            (Some (0, pre @ first_occurrences (bo ` set pre) rest,
                  Some (rev (later_occurrences (bo ` set pre) rest) @ d)), s') \<and>
          (\<forall>b. (holder s' b = Some (Ticket t)) = (b \<in> bo ` set (pre @ rest))) \<and>
          (\<exists>evs. trace s' = trace s @ evs \<and> reserve_attempts evs = map bo rest)"
proof (induction rest arbitrary: pre d s n)
  case Nil
  from Nil.prems(2) obtain m where n: "n = Suc m" by (cases n) simp_all
  from Nil.prems(1) have "\<forall>b. (holder s b = Some (Ticket t)) = (b \<in> bo ` set pre)"
    by (simp add: holds_prefix_def)
  then show ?case by (simp add: n)
next
  case (Cons x xs)
  let ?list = "pre @ x # xs"
  let ?i = "length pre"
  from Cons.prems(2) obtain m where n: "n = Suc m" and m: "length xs < m"
    by (cases n) simp_all
  have i: "?i < length ?list" and xi: "?list ! ?i = x" by simp_all
  from Cons.prems(1) have held: "\<forall>b. (holder s b = Some (Ticket t)) = (b \<in> bo ` set pre)"
    by (simp add: holds_prefix_def)
  show ?case
  proof (cases "bo x \<in> bo ` set pre")
    case True
    with held have h: "holder s (bo (?list ! ?i)) = Some (Ticket t)" by (simp add: xi)
    let ?s1 = "log (Reserve (bo x) (- EALREADY)) s"
    have step: "reserve_entry e (Some t) intr ?list (Some d) ?i s =
                Next (pre @ xs) (Some (x # d)) ?i ?s1"
      using entry_duplicate [OF h, of e intr d] by (simp add: xi list_del_def)
    from held have inv1: "holds_prefix t (pre @ xs) (length pre) ?s1"
      by (simp add: holds_prefix_def)
    from Cons.IH [OF inv1 m, of "x # d"]
    obtain s' evs where r: "reserve_loop m e (Some t) intr (pre @ xs) (Some (x # d)) ?i ?s1 =
            (Some (0, pre @ first_occurrences (bo ` set pre) xs,
                  Some (rev (later_occurrences (bo ` set pre) xs) @ x # d)), s')"
      and hs: "\<forall>b. (holder s' b = Some (Ticket t)) = (b \<in> bo ` set (pre @ xs))"
      and tr: "trace s' = trace ?s1 @ evs" "reserve_attempts evs = map bo xs"
      by blast
    have loop: "reserve_loop n e (Some t) intr ?list (Some d) ?i s =
            (Some (0, pre @ first_occurrences (bo ` set pre) (x # xs),
                  Some (rev (later_occurrences (bo ` set pre) (x # xs)) @ d)), s')"
      using True r i by (simp add: n step)
    have hs': "\<forall>b. (holder s' b = Some (Ticket t)) = (b \<in> bo ` set ?list)"
      using hs True by auto
    have "trace s' = trace s @ (Reserve (bo x) (- EALREADY) # evs)"
      using tr(1) by simp
    moreover have "reserve_attempts (Reserve (bo x) (- EALREADY) # evs) = map bo (x # xs)"
      using tr(2) by simp
    ultimately have "\<exists>evs. trace s' = trace s @ evs \<and> reserve_attempts evs = map bo (x # xs)"
      by blast
    with loop hs' show ?thesis by blast
  next
    case False
    with held have h: "holder s (bo (?list ! ?i)) \<noteq> Some (Ticket t)" by (simp add: xi)
    from entry_granted [OF h env, of intr "Some d"]
    obtain s1 evs1 where step: "reserve_entry e (Some t) intr ?list (Some d) ?i s =
                Next ?list (Some d) (Suc ?i) s1"
      and h1: "holder s1 = (holder s)(bo x := Some (Ticket t))"
      and tr1: "trace s1 = trace s @ Reserve (bo x) 0 # evs1" "reserve_attempts evs1 = []"
      by (auto simp: xi)
    have l: "?list = (pre @ [x]) @ xs" and len: "Suc ?i = length (pre @ [x])" by simp_all
    from held h1 have "holds_prefix t ((pre @ [x]) @ xs) (length (pre @ [x])) s1"
      by (auto simp: holds_prefix_def)
    from Cons.IH [OF this m, of d]
    obtain s' evs where r: "reserve_loop m e (Some t) intr ((pre @ [x]) @ xs) (Some d)
              (length (pre @ [x])) s1 =
            (Some (0, (pre @ [x]) @ first_occurrences (bo ` set (pre @ [x])) xs,
                  Some (rev (later_occurrences (bo ` set (pre @ [x])) xs) @ d)), s')"
      and hs: "\<forall>b. (holder s' b = Some (Ticket t)) = (b \<in> bo ` set ((pre @ [x]) @ xs))"
      and tr: "trace s' = trace s1 @ evs" "reserve_attempts evs = map bo xs"
      by blast
    have seen: "bo ` set (pre @ [x]) = insert (bo x) (bo ` set pre)" by auto
    have loop: "reserve_loop n e (Some t) intr ?list (Some d) ?i s =
            (Some (0, pre @ first_occurrences (bo ` set pre) (x # xs),
                  Some (rev (later_occurrences (bo ` set pre) (x # xs)) @ d)), s')"
      using False r i unfolding seen by (simp add: n step)
    have hs': "\<forall>b. (holder s' b = Some (Ticket t)) = (b \<in> bo ` set ?list)"
      using hs by simp
    have "trace s' = trace s @ (Reserve (bo x) 0 # evs1 @ evs)"
      using tr(1) tr1(1) by simp
    moreover have "reserve_attempts (Reserve (bo x) 0 # evs1 @ evs) = map bo (x # xs)"
      using tr(2) tr1(2) by (simp add: reserve_attempts_append)
    ultimately have "\<exists>evs. trace s' = trace s @ evs \<and> reserve_attempts evs = map bo (x # xs)"
      by blast
    with loop hs' show ?thesis by blast
  qed
qed

lemma entry_Next_distinct:
  assumes "reserve_entry e (Some t) intr list dups i s = Next l1 d1 i1 s1"
    and "i < length list" and "holds_prefix t list i s"
    and "distinct (map bo (take i list))"
  shows "distinct (map bo (take i1 l1))"
proof -
  let ?b = "bo (list ! i)"
  let ?r = "ttm_bo_reserve e ?b intr False (Some t) s"
  from assms(2) have le: "i \<le> length list" by simp
  consider (dup) "fst ?r = - EALREADY" "dups \<noteq> None"
    | (lost) "\<not> (fst ?r = - EALREADY \<and> dups \<noteq> None)" "fst ?r \<noteq> 0"
    | (ok) "fst ?r = 0"
    by blast
  then show ?thesis
  proof cases
    case dup
    with assms(1) have eq: "l1 = list_del i list" "i1 = i"
      by (auto simp: reserve_entry_flat Let_def)
    from assms(4) le show ?thesis by (simp add: eq take_list_del)
  next
    case lost
    with assms(1) have lo: "reserve_lost_out e (Some t) intr list dups i (fst ?r) (snd ?r)
        = Next l1 d1 i1 s1"
      by (auto simp: reserve_entry_flat Let_def split: if_splits)
    from lost_out_Next [OF lo lost(2) le] show ?thesis
      by (simp add: list_add_def)
  next
    case ok
    with assms(1) have eq: "l1 = list" "i1 = Suc i"
      by (auto simp: reserve_entry_flat Let_def lost_out_flat errno_defs split: if_splits)
    from ok have "holder s ?b \<noteq> Some (Ticket t)"
      by (auto simp: ttm_bo_reserve_ticket_ret errno_defs split: if_splits)
    with assms(3) have "?b \<notin> bo ` set (take i list)"
      by (simp add: holds_prefix_def)
    with assms(2,4) show ?thesis
      by (simp add: eq take_Suc_conv_app_nth)
  qed
qed

lemma reserve_loop_success:
  assumes "reserve_loop n e (Some t) intr list dups i s = (Some (0, l', d'), s')"
    and "i \<le> length list" and "holds_prefix t list i s"
    and "distinct (map bo (take i list))"
  shows "distinct (map bo l') \<and> (\<forall>b. (holder s' b = Some (Ticket t)) = (b \<in> bo ` set l'))"
  using assms
proof (induction n arbitrary: list dups i s)
  case 0
  then show ?case by simp
next
  case (Suc n)
  show ?case
  proof (cases "i < length list")
    case False
    with Suc.prems(1,2) have "l' = list" "s' = s" "take i list = list" by simp_all
    with Suc.prems(3,4) show ?thesis by (simp add: holds_prefix_def)
  next
    case True
    show ?thesis
    proof (cases "reserve_entry e (Some t) intr list dups i s")
      case (Next l1 d1 i1 s1)
      from entry_Next_inv [OF Next True Suc.prems(3)]
      have inv: "holds_prefix t l1 i1 s1" "i1 \<le> length l1" by simp_all
      from entry_Next_distinct [OF Next True Suc.prems(3,4)]
      have d: "distinct (map bo (take i1 l1))" .
      from Suc.prems(1) True Next
      have rest: "reserve_loop n e (Some t) intr l1 d1 i1 s1 = (Some (0, l', d'), s')"
        by simp
      from Suc.IH [OF rest inv(2) inv(1) d] show ?thesis .
    next
      case (Return ret s1)
      with Suc.prems(1) True have "ret = 0" by simp
      with entry_Return [OF Return True Suc.prems(3)] show ?thesis by simp
    qed
  qed
qed

lemma reserve_success_postcondition:
  assumes "ttm_eu_reserve_buffers fuel e (Some t) list intr dups s = (Some (0, l', d'), s')"
    and "\<forall>b. holder s b \<noteq> Some (Ticket t)"
  shows "distinct (map bo l') \<and> (\<forall>b. (holder s' b = Some (Ticket t)) = (b \<in> bo ` set l'))"
proof (cases "list = []")
  case True
  with assms show ?thesis by (simp add: ttm_eu_reserve_buffers_def)
next
  case False
  let ?s0 = "ww_acquire_init t s"
  from False assms(1)
  have loop: "reserve_loop fuel e (Some t) intr list dups 0 ?s0 = (Some (0, l', d'), s')"
    by (simp add: ttm_eu_reserve_buffers_def)
  from assms(2) have inv: "holds_prefix t list 0 ?s0"
    by (simp add: holds_prefix_def)
  from reserve_loop_success [OF loop _ inv] show ?thesis by simp
qed

lemma unlocks_append: "unlocks (xs @ ys) = unlocks xs @ unlocks ys"
  by (induction xs rule: unlocks.induct) simp_all

lemma unlocks_map_Unlock: "unlocks (map (\<lambda>x. Unlock (bo x)) xs) = map bo xs"
  by (induction xs) simp_all

lemma lost_out_rollback:
  assumes "ret \<noteq> 0" and "i \<le> length list"
  shows "\<exists>evs. trace (step_state (reserve_lost_out e ticket intr list dups i ret s2)) =
           trace s2 @ map (\<lambda>x. Unlock (bo x)) (rev (take i list)) @ evs \<and> unlocks evs = []"
    and "lru (step_state (reserve_lost_out e ticket intr list dups i ret s2)) = lru s2"
    and "c \<noteq> bo (list ! i) \<Longrightarrow>
         holder (step_state (reserve_lost_out e ticket intr list dups i ret s2)) c =
           (if c \<in> bo ` set (take i list) then None else holder s2 c)"
  using assms
  by (cases ticket;
      simp add: lost_out_flat Let_def backoff_reverse_trace backoff_reverse_holder
        backoff_reverse_lru)+

lemma takes_rollback_iff:
  "takes_rollback e ticket intr list dups i s =
     (\<not> (fst (ttm_bo_reserve e (bo (list ! i)) intr (ticket = None) ticket s) = - EALREADY \<and>
         dups \<noteq> None) \<and>
      (fst (ttm_bo_reserve e (bo (list ! i)) intr (ticket = None) ticket s) \<noteq> 0 \<or>
       num_shared (list ! i) \<noteq> 0 \<and>
       slots_exhausted e (snd (ttm_bo_reserve e (bo (list ! i)) intr (ticket = None) ticket s))
         (bo (list ! i)) (num_shared (list ! i))))"
  by (simp add: takes_rollback_def Let_def split_beta errno_defs)

lemma entry_rollback:
  assumes "i < length list" and "takes_rollback e ticket intr list dups i s"
  shows "unlocks (drop (length (trace s))
           (trace (step_state (reserve_entry e ticket intr list dups i s)))) =
           map bo (rev (take i list))"
    and "c \<noteq> bo (list ! i) \<Longrightarrow>
         holder (step_state (reserve_entry e ticket intr list dups i s)) c =
           (if c \<in> bo ` set (take i list) then None else holder s c)"
    and "lru (step_state (reserve_entry e ticket intr list dups i s)) = lru s"
proof -
  let ?b = "bo (list ! i)"
  let ?n = "num_shared (list ! i)"
  let ?r = "ttm_bo_reserve e ?b intr (ticket = None) ticket s"
  let ?U = "map (\<lambda>x. Unlock (bo x)) (rev (take i list))"
  from assms(1) have le: "i \<le> length list" by simp
  from assms(2) have nd: "\<not> (fst ?r = - EALREADY \<and> dups \<noteq> None)"
    and fail: "fst ?r \<noteq> 0 \<or> ?n \<noteq> 0 \<and> slots_exhausted e (snd ?r) ?b ?n"
    by (simp_all add: takes_rollback_iff)
  have nz: "- ENOMEM \<noteq> (0::int)" by (simp add: errno_defs)
  obtain ret s2 where call: "reserve_entry e ticket intr list dups i s =
        reserve_lost_out e ticket intr list dups i ret s2"
    and ret: "ret \<noteq> 0"
    and s2: "\<exists>pre. trace s2 = trace s @ pre \<and> unlocks pre = []" "lru s2 = lru s"
      "\<forall>c. c \<noteq> ?b \<longrightarrow> holder s2 c = holder s c"
  proof (cases "fst ?r = 0")
    case False
    with nd have "reserve_entry e ticket intr list dups i s =
        reserve_lost_out e ticket intr list dups i (fst ?r) (snd ?r)"
      by (auto simp: reserve_entry_flat Let_def)
    moreover have "\<exists>pre. trace (snd ?r) = trace s @ pre \<and> unlocks pre = []" by simp
    moreover from False have "\<forall>c. c \<noteq> ?b \<longrightarrow> holder (snd ?r) c = holder s c" by simp
    ultimately show ?thesis using False that [of "fst ?r" "snd ?r"] by simp
  next
    case True
    let ?s2 = "log (ReserveShared ?b ?n (- ENOMEM)) (snd ?r)"
    from True fail nd have "reserve_entry e ticket intr list dups i s =
        reserve_lost_out e ticket intr list dups i (- ENOMEM) ?s2"
      by (auto simp: reserve_entry_flat Let_def errno_defs)
    moreover have "trace ?s2 = trace s @ [Reserve ?b (fst ?r), ReserveShared ?b ?n (- ENOMEM)]"
      by simp
    then have "\<exists>pre. trace ?s2 = trace s @ pre \<and> unlocks pre = []"
      by (intro exI [of _ "[Reserve ?b (fst ?r), ReserveShared ?b ?n (- ENOMEM)]"]) simp
    moreover have "\<forall>c. c \<noteq> ?b \<longrightarrow> holder ?s2 c = holder s c" by simp
    ultimately show ?thesis using nz that [of "- ENOMEM" ?s2] by simp
  qed
  from s2(1) obtain pre where pre: "trace s2 = trace s @ pre" "unlocks pre = []" by blast
  from lost_out_rollback(1) [OF ret le, of e ticket intr dups s2]
  obtain evs where tr: "trace (step_state (reserve_lost_out e ticket intr list dups i ret s2)) =
      trace s2 @ ?U @ evs" and ev: "unlocks evs = []"
    by blast
  from tr pre(1) have "drop (length (trace s))
      (trace (step_state (reserve_entry e ticket intr list dups i s))) = pre @ ?U @ evs"
    by (simp add: call)
  then show "unlocks (drop (length (trace s))
           (trace (step_state (reserve_entry e ticket intr list dups i s)))) =
           map bo (rev (take i list))"
    using pre(2) ev by (simp add: unlocks_append unlocks_map_Unlock)
  show "lru (step_state (reserve_entry e ticket intr list dups i s)) = lru s"
    using lost_out_rollback(2) [OF ret le] s2(2) by (simp add: call)
  show "holder (step_state (reserve_entry e ticket intr list dups i s)) c =
           (if c \<in> bo ` set (take i list) then None else holder s c)" if "c \<noteq> ?b"
    using lost_out_rollback(3) [OF ret le that] s2(3) that by (simp add: call)
qed

lemma entry_no_rollback:
  assumes "\<not> takes_rollback e ticket intr list dups i s"
  shows "unlocks (drop (length (trace s))
           (trace (step_state (reserve_entry e ticket intr list dups i s)))) = []"
    and "lru (step_state (reserve_entry e ticket intr list dups i s)) = lru s"
  using assms
  by (auto simp: takes_rollback_iff reserve_entry_flat Let_def)












lemma uncontended_duplicate_scan:
  assumes "\<forall>s b. lock_contended e s b = Granted" and "\<forall>s b. \<not> signal_pending e s b"
    and "\<forall>s b n. \<not> slots_exhausted e s b n"
    and "\<forall>b. holder s b \<noteq> Some (Ticket t)"
    and "length list < fuel"
  shows "\<exists>s'. ttm_eu_reserve_buffers fuel e (Some t) list intr (Some d) s =
            (Some (0, first_occurrences {} list,
                  Some (rev (later_occurrences {} list) @ d)), s') \<and>
          (\<forall>b. (holder s' b = Some (Ticket t)) = (b \<in> bo ` set list)) \<and>
          reserve_attempts (drop (length (trace s)) (trace s')) = map bo list"
proof (cases "list = []")
  case True
  with assms(4) show ?thesis by (simp add: ttm_eu_reserve_buffers_def)
next
  case False
  let ?s0 = "ww_acquire_init t s"
  from assms(4) have inv: "holds_prefix t ([] @ list) (length ([] :: ttm_validate_buffer list)) ?s0"
    by (simp add: holds_prefix_def)
  from duplicate_scan [OF assms(1-3) inv assms(5), of intr d]
  obtain s' evs where r: "reserve_loop fuel e (Some t) intr list (Some d) 0 ?s0 =
            (Some (0, first_occurrences {} list,
                  Some (rev (later_occurrences {} list) @ d)), s')"
    and hs: "\<forall>b. (holder s' b = Some (Ticket t)) = (b \<in> bo ` set list)"
    and tr: "trace s' = trace ?s0 @ evs" "reserve_attempts evs = map bo list"
    by auto
  from tr(1) have "drop (length (trace s)) (trace s') = AcquireInit t # evs" by simp
  with tr(2) have "reserve_attempts (drop (length (trace s)) (trace s')) = map bo list"
    by simp
  with r hs False show ?thesis by (simp add: ttm_eu_reserve_buffers_def)
qed




section \<open>The claims\<close>

subsection \<open>Failure of the slot reservation\<close>

text \<open>Claim C1 says that a failing \<^verbatim>\<open>ttm_eu_reserve_buffers\<close> leaves no entry of the batch
  locked by the ticket. The code breaks it on the two paths the claim names. A fresh
  ticket \<open>7\<close> reserves a single unlocked buffer with one shared slot, and
  \<^verbatim>\<open>dma_resv_reserve_shared\<close> fails: the call returns \<open>-ENOMEM\<close>, the ticket is finished,
  and the buffer is still locked by the ticket. The same happens when the buffer was
  obtained by the slow-path wait before the slot reservation failed: the entry before it
  is unlocked, the current one stays locked.\<close>

theorem enomem_leaves_entry_locked:
  "fst (ttm_eu_reserve_buffers 2 starved (Some 7) [vb 1 1] False None idle) =
     Some (- ENOMEM, [vb 1 1], None) \<and>
   holder (snd (ttm_eu_reserve_buffers 2 starved (Some 7) [vb 1 1] False None idle)) 1 =
     Some (Ticket 7) \<and>
   acquire_ctx (snd (ttm_eu_reserve_buffers 2 starved (Some 7) [vb 1 1] False None idle)) 7 =
     Finished \<and>
   trace (snd (ttm_eu_reserve_buffers 2 starved (Some 7) [vb 1 1] False None idle)) =
     [AcquireInit 7, Reserve 1 0, ReserveShared 1 1 (- ENOMEM), AcquireDone 7, AcquireFini 7] \<and>
   fst (ttm_eu_reserve_buffers 2 starved (Some 7) [vb 1 0, vb 2 1] False None
          (idle\<lparr>holder := (holder idle)(2 := Some (Ticket 3))\<rparr>)) =
     Some (- ENOMEM, [vb 1 0, vb 2 1], None) \<and>
   holder (snd (ttm_eu_reserve_buffers 2 starved (Some 7) [vb 1 0, vb 2 1] False None
          (idle\<lparr>holder := (holder idle)(2 := Some (Ticket 3))\<rparr>))) 1 = None \<and>
   holder (snd (ttm_eu_reserve_buffers 2 starved (Some 7) [vb 1 0, vb 2 1] False None
          (idle\<lparr>holder := (holder idle)(2 := Some (Ticket 3))\<rparr>))) 2 = Some (Ticket 7) \<and>
   trace (snd (ttm_eu_reserve_buffers 2 starved (Some 7) [vb 1 0, vb 2 1] False None
          (idle\<lparr>holder := (holder idle)(2 := Some (Ticket 3))\<rparr>))) =
     [AcquireInit 7, Reserve 1 0, Reserve 2 (- EDEADLK), Unlock 1, LockSlow 2 0,
      ReserveShared 2 1 (- ENOMEM), AcquireDone 7, AcquireFini 7]"
  unfolding starved_fast_run starved_slow_run by (simp add: idle_def)

subsection \<open>Duplicates\<close>




subsection \<open>LRU order after release\<close>

text \<open>Claim C3. For a non-empty validate list of distinct buffers (what a successful
  \<^verbatim>\<open>ttm_eu_reserve_buffers\<close> leaves, see \<open>reserve_success_postcondition\<close>), after
  \<^verbatim>\<open>ttm_eu_backoff_reservation\<close> and after \<^verbatim>\<open>ttm_eu_fence_buffer_objects\<close> the LRU list
  ends with the buffers of the list, in list order, preceded by the other buffers in their
  old order; and the log shows each buffer moved to the LRU tail immediately before its
  unlock, all inside the LRU lock.\<close>

theorem released_buffers_at_lru_tail:
  assumes "list \<noteq> []" and "distinct (map bo list)"
  shows "lru (ttm_eu_backoff_reservation ticket list s) =
           filter (\<lambda>x. x \<notin> bo ` set list) (lru s) @ map bo list \<and>
         lru (ttm_eu_fence_buffer_objects ticket list fence s) =
           filter (\<lambda>x. x \<notin> bo ` set list) (lru s) @ map bo list \<and>
         trace (ttm_eu_backoff_reservation ticket list s) =
           trace s @ LruLock #
             concat (map (\<lambda>x. [MoveToLruTail (bo x), Unlock (bo x)]) list) @
             LruUnlock # (case ticket of None \<Rightarrow> [] | Some t \<Rightarrow> [AcquireFini t]) \<and>
         trace (ttm_eu_fence_buffer_objects ticket list fence s) =
           trace s @ LruLock #
             concat (map (\<lambda>x.
               [if num_shared x \<noteq> 0 then AddSharedFence (bo x) fence
                else AddExclFence (bo x) fence,
                MoveToLruTail (bo x), Unlock (bo x)]) list) @
             LruUnlock # (case ticket of None \<Rightarrow> [] | Some t \<Rightarrow> [AcquireFini t])"
proof -
  have b1: "lru (ttm_eu_backoff_reservation ticket list s) =
           filter (\<lambda>x. x \<notin> bo ` set list) (lru s) @ map bo list"
    using assms
    by (simp add: ttm_eu_backoff_reservation_def Let_def backoff_entries_lru
        split: option.splits)
  have f1: "lru (ttm_eu_fence_buffer_objects ticket list fence s) =
           filter (\<lambda>x. x \<notin> bo ` set list) (lru s) @ map bo list"
    using assms
    by (simp add: ttm_eu_fence_buffer_objects_def Let_def fence_entries_lru
        split: option.splits)
  have b2: "trace (ttm_eu_backoff_reservation ticket list s) =
           trace s @ LruLock #
             concat (map (\<lambda>x. [MoveToLruTail (bo x), Unlock (bo x)]) list) @
             LruUnlock # (case ticket of None \<Rightarrow> [] | Some t \<Rightarrow> [AcquireFini t])"
    using assms(1)
    by (simp add: ttm_eu_backoff_reservation_def Let_def backoff_entries_trace
        split: option.splits)
  have f2: "trace (ttm_eu_fence_buffer_objects ticket list fence s) =
           trace s @ LruLock #
             concat (map (\<lambda>x.
               [if num_shared x \<noteq> 0 then AddSharedFence (bo x) fence
                else AddExclFence (bo x) fence,
                MoveToLruTail (bo x), Unlock (bo x)]) list) @
             LruUnlock # (case ticket of None \<Rightarrow> [] | Some t \<Rightarrow> [AcquireFini t])"
    using assms(1)
    by (simp add: ttm_eu_fence_buffer_objects_def Let_def fence_entries_trace
        split: option.splits)
  from b1 f1 b2 f2 show ?thesis by blast
qed

theorem released_buffers_at_lru_tail_witness:
  "[vb 1 0, vb 2 1] \<noteq> [] \<and> distinct (map bo [vb 1 0, vb 2 1]) \<and>
   lru (ttm_eu_backoff_reservation (Some 7) [vb 1 0, vb 2 1] (idle\<lparr>lru := [2, 5, 1]\<rparr>)) =
     [5, 1, 2] \<and>
   lru (ttm_eu_fence_buffer_objects (Some 7) [vb 1 0, vb 2 1] 9 (idle\<lparr>lru := [2, 5, 1]\<rparr>)) =
     [5, 1, 2] \<and>
   trace (ttm_eu_backoff_reservation (Some 7) [vb 1 0, vb 2 1] (idle\<lparr>lru := [2, 5, 1]\<rparr>)) =
     [LruLock, MoveToLruTail 1, Unlock 1, MoveToLruTail 2, Unlock 2, LruUnlock,
      AcquireFini 7] \<and>
   trace (ttm_eu_fence_buffer_objects (Some 7) [vb 1 0, vb 2 1] 9 (idle\<lparr>lru := [2, 5, 1]\<rparr>)) =
     [LruLock, AddExclFence 1 9, MoveToLruTail 1, Unlock 1,
      AddSharedFence 2 9, MoveToLruTail 2, Unlock 2, LruUnlock, AcquireFini 7]"
proof -
  have ne: "[vb 1 0, vb 2 1] \<noteq> []" by simp
  have d: "distinct (map bo [vb 1 0, vb 2 1])" by (simp add: vb_def)
  from released_buffers_at_lru_tail [OF ne d, of "Some 7" "idle\<lparr>lru := [2, 5, 1]\<rparr>" 9]
  show ?thesis
    by (simp add: vb_def idle_def)
qed

subsection \<open>Fences\<close>

text \<open>Claim C4. After \<^verbatim>\<open>ttm_eu_fence_buffer_objects\<close>, for every entry of the list: with
  \<open>num_shared = 0\<close> the buffer's exclusive fence is the fence supplied; with
  \<open>num_shared > 0\<close>, in a list of distinct buffers, the fence supplied has been added to
  the buffer's shared fences and its exclusive fence is the one it had.\<close>

theorem fence_markers:
  assumes "entry \<in> set list"
  shows "(num_shared entry = 0 \<longrightarrow>
            fence_excl (ttm_eu_fence_buffer_objects ticket list fence s) (bo entry) = Some fence) \<and>
         (0 < num_shared entry \<and> distinct (map bo list) \<longrightarrow>
            fence_shared (ttm_eu_fence_buffer_objects ticket list fence s) (bo entry) =
              fence_shared s (bo entry) @ [fence] \<and>
            fence_excl (ttm_eu_fence_buffer_objects ticket list fence s) (bo entry) =
              fence_excl s (bo entry))"
proof -
  from assms have ne: "list \<noteq> []" by auto
  have ex: "fence_excl (ttm_eu_fence_buffer_objects ticket list fence s) =
            fence_excl (fence_entries fence list (spin_lock s))"
    and sh: "fence_shared (ttm_eu_fence_buffer_objects ticket list fence s) =
            fence_shared (fence_entries fence list (spin_lock s))"
    using ne by (simp_all add: ttm_eu_fence_buffer_objects_def Let_def split: option.splits)
  have a: "num_shared entry = 0 \<longrightarrow>
      fence_excl (fence_entries fence list (spin_lock s)) (bo entry) = Some fence"
    using assms by (simp add: fence_entries_excl)
  have b: "0 < num_shared entry \<and> distinct (map bo list) \<longrightarrow>
      fence_shared (fence_entries fence list (spin_lock s)) (bo entry) =
        fence_shared s (bo entry) @ [fence] \<and>
      fence_excl (fence_entries fence list (spin_lock s)) (bo entry) = fence_excl s (bo entry)"
    using assms fence_entries_shared [of entry list fence "spin_lock s"] by simp
  from a b show ?thesis unfolding ex sh by blast
qed

theorem fence_markers_witness:
  "vb 1 0 \<in> set [vb 1 0, vb 2 1] \<and> vb 2 1 \<in> set [vb 1 0, vb 2 1] \<and>
   num_shared (vb 1 0) = 0 \<and> 0 < num_shared (vb 2 1) \<and> distinct (map bo [vb 1 0, vb 2 1]) \<and>
   fence_excl (ttm_eu_fence_buffer_objects (Some 7) [vb 1 0, vb 2 1] 9
     (idle\<lparr>fence_excl := (\<lambda>b. Some 4), fence_shared := (\<lambda>b. [5])\<rparr>)) 1 = Some 9 \<and>
   fence_shared (ttm_eu_fence_buffer_objects (Some 7) [vb 1 0, vb 2 1] 9
     (idle\<lparr>fence_excl := (\<lambda>b. Some 4), fence_shared := (\<lambda>b. [5])\<rparr>)) 2 = [5, 9] \<and>
   fence_excl (ttm_eu_fence_buffer_objects (Some 7) [vb 1 0, vb 2 1] 9
     (idle\<lparr>fence_excl := (\<lambda>b. Some 4), fence_shared := (\<lambda>b. [5])\<rparr>)) 2 = Some 4"
proof -
  let ?s = "idle\<lparr>fence_excl := (\<lambda>b. Some 4), fence_shared := (\<lambda>b. [5])\<rparr>"
  have m1: "vb 1 0 \<in> set [vb 1 0, vb 2 1]" and m2: "vb 2 1 \<in> set [vb 1 0, vb 2 1]"
    by simp_all
  from fence_markers [OF m1, of "Some 7" 9 ?s] fence_markers [OF m2, of "Some 7" 9 ?s]
  show ?thesis
    by (simp add: vb_def idle_def)
qed

subsection \<open>Partial rollback\<close>

text \<open>Claim C5. Take any pass of the loop of \<^verbatim>\<open>ttm_eu_reserve_buffers\<close>, at the entry at
  position \<open>i\<close>. If the pass takes the rollback (it reaches line 119), the buffers it
  unlocks are exactly those of the entries before position \<open>i\<close>, in reverse list order,
  nothing being unlocked for the current entry; every buffer other than the current
  entry's is then unlocked if it belongs to an entry before \<open>i\<close> and has the holder it had
  otherwise. A pass that does not take the rollback unlocks nothing. No pass changes the
  LRU list. The helper \<^verbatim>\<open>ttm_eu_backoff_reservation_reverse\<close> by itself logs exactly
  these unlocks and changes neither another holder nor the LRU list.\<close>

theorem rollback_unlocks_preceding:
  assumes "i < length list"
  shows "(takes_rollback e ticket intr list dups i s \<longrightarrow>
            unlocks (drop (length (trace s))
              (trace (step_state (reserve_entry e ticket intr list dups i s)))) =
              map bo (rev (take i list)) \<and>
            (\<forall>c. c \<noteq> bo (list ! i) \<longrightarrow>
               holder (step_state (reserve_entry e ticket intr list dups i s)) c =
                 (if c \<in> bo ` set (take i list) then None else holder s c))) \<and>
         (\<not> takes_rollback e ticket intr list dups i s \<longrightarrow>
            unlocks (drop (length (trace s))
              (trace (step_state (reserve_entry e ticket intr list dups i s)))) = []) \<and>
         lru (step_state (reserve_entry e ticket intr list dups i s)) = lru s \<and>
         trace (ttm_eu_backoff_reservation_reverse list i s) =
           trace s @ map (\<lambda>x. Unlock (bo x)) (rev (take i list)) \<and>
         (\<forall>b. holder (ttm_eu_backoff_reservation_reverse list i s) b =
           (if b \<in> bo ` set (take i list) then None else holder s b)) \<and>
         lru (ttm_eu_backoff_reservation_reverse list i s) = lru s"
proof -
  from assms have le: "i \<le> length list" by simp
  have a: "takes_rollback e ticket intr list dups i s \<longrightarrow>
            unlocks (drop (length (trace s))
              (trace (step_state (reserve_entry e ticket intr list dups i s)))) =
              map bo (rev (take i list)) \<and>
            (\<forall>c. c \<noteq> bo (list ! i) \<longrightarrow>
               holder (step_state (reserve_entry e ticket intr list dups i s)) c =
                 (if c \<in> bo ` set (take i list) then None else holder s c))"
    using entry_rollback(1,2) [OF assms] by blast
  have b: "\<not> takes_rollback e ticket intr list dups i s \<longrightarrow>
            unlocks (drop (length (trace s))
              (trace (step_state (reserve_entry e ticket intr list dups i s)))) = []"
    using entry_no_rollback(1) by blast
  have c: "lru (step_state (reserve_entry e ticket intr list dups i s)) = lru s"
    using entry_rollback(3) [OF assms] entry_no_rollback(2) by blast
  from a b c le show ?thesis
    by (simp add: backoff_reverse_trace backoff_reverse_holder backoff_reverse_lru)
qed

theorem rollback_unlocks_preceding_witness:
  "(2::nat) < length [vb 1 0, vb 2 0, vb 3 0] \<and>
   takes_rollback wounding (Some 7) False [vb 1 0, vb 2 0, vb 3 0] None 2
     (idle\<lparr>holder := (\<lambda>b. if b = 3 then Some (Ticket 3) else Some (Ticket 7)),
           lru := [3, 2, 1]\<rparr>) \<and>
   unlocks (drop (length (trace
       (idle\<lparr>holder := (\<lambda>b. if b = 3 then Some (Ticket 3) else Some (Ticket 7)),
             lru := [3, 2, 1]\<rparr>)))
     (trace (step_state (reserve_entry wounding (Some 7) False [vb 1 0, vb 2 0, vb 3 0] None 2
       (idle\<lparr>holder := (\<lambda>b. if b = 3 then Some (Ticket 3) else Some (Ticket 7)),
             lru := [3, 2, 1]\<rparr>))))) = [2, 1] \<and>
   holder (step_state (reserve_entry wounding (Some 7) False [vb 1 0, vb 2 0, vb 3 0] None 2
       (idle\<lparr>holder := (\<lambda>b. if b = 3 then Some (Ticket 3) else Some (Ticket 7)),
             lru := [3, 2, 1]\<rparr>))) 1 = None \<and>
   holder (step_state (reserve_entry wounding (Some 7) False [vb 1 0, vb 2 0, vb 3 0] None 2
       (idle\<lparr>holder := (\<lambda>b. if b = 3 then Some (Ticket 3) else Some (Ticket 7)),
             lru := [3, 2, 1]\<rparr>))) 4 = Some (Ticket 7) \<and>
   lru (step_state (reserve_entry wounding (Some 7) False [vb 1 0, vb 2 0, vb 3 0] None 2
       (idle\<lparr>holder := (\<lambda>b. if b = 3 then Some (Ticket 3) else Some (Ticket 7)),
             lru := [3, 2, 1]\<rparr>))) = [3, 2, 1] \<and>
   \<not> takes_rollback calm (Some 7) False [vb 1 0, vb 2 0, vb 3 0] None 2
     (idle\<lparr>holder := (\<lambda>b. if b = 3 then None else Some (Ticket 7))\<rparr>) \<and>
   unlocks (drop (length (trace
       (idle\<lparr>holder := (\<lambda>b. if b = 3 then None else Some (Ticket 7))\<rparr>)))
     (trace (step_state (reserve_entry calm (Some 7) False [vb 1 0, vb 2 0, vb 3 0] None 2
       (idle\<lparr>holder := (\<lambda>b. if b = 3 then None else Some (Ticket 7))\<rparr>))))) = []"
proof -
  let ?l = "[vb 1 0, vb 2 0, vb 3 0]"
  let ?s = "idle\<lparr>holder := (\<lambda>b. if b = 3 then Some (Ticket 3) else Some (Ticket 7)),
                 lru := [3, 2, 1]\<rparr>"
  let ?q = "idle\<lparr>holder := (\<lambda>b. if b = 3 then None else Some (Ticket 7))\<rparr>"
  have i: "(2::nat) < length ?l" by simp
  have r: "takes_rollback wounding (Some 7) False ?l None 2 ?s"
    by (simp add: takes_rollback_iff ttm_bo_reserve_ticket_ret wounding_def idle_def vb_def
        errno_defs)
  have n: "\<not> takes_rollback calm (Some 7) False ?l None 2 ?q"
    by (simp add: takes_rollback_iff ttm_bo_reserve_ticket_ret calm_def idle_def vb_def
        errno_defs)
  from rollback_unlocks_preceding [OF i, of wounding "Some 7" False None ?s] r
  have a: "unlocks (drop (length (trace ?s))
        (trace (step_state (reserve_entry wounding (Some 7) False ?l None 2 ?s)))) =
        map bo (rev (take 2 ?l))"
    and h: "\<forall>c. c \<noteq> bo (?l ! 2) \<longrightarrow>
        holder (step_state (reserve_entry wounding (Some 7) False ?l None 2 ?s)) c =
          (if c \<in> bo ` set (take 2 ?l) then None else holder ?s c)"
    and l: "lru (step_state (reserve_entry wounding (Some 7) False ?l None 2 ?s)) = lru ?s"
    by blast+
  from rollback_unlocks_preceding [OF i, of calm "Some 7" False None ?q] n
  have b: "unlocks (drop (length (trace ?q))
        (trace (step_state (reserve_entry calm (Some 7) False ?l None 2 ?q)))) = []"
    by blast
  from a have a': "unlocks (drop (length (trace ?s))
        (trace (step_state (reserve_entry wounding (Some 7) False ?l None 2 ?s)))) = [2, 1]"
    by (simp add: vb_def)
  from h have h1: "holder (step_state (reserve_entry wounding (Some 7) False ?l None 2 ?s)) 1
        = None"
    and h4: "holder (step_state (reserve_entry wounding (Some 7) False ?l None 2 ?s)) 4
        = Some (Ticket 7)"
    by (simp_all add: vb_def idle_def)
  from l have l': "lru (step_state (reserve_entry wounding (Some 7) False ?l None 2 ?s))
        = [3, 2, 1]"
    by (simp add: idle_def)
  from i r a' h1 h4 l' n b show ?thesis by blast
qed

subsection \<open>Cancellation\<close>

text \<open>Claim C6. In an interruptible batch with a fresh ticket, as soon as a slow-path wait
  was interrupted (\<open>-EINTR\<close> from \<^verbatim>\<open>dma_resv_lock_slow_interruptible\<close> is in the log of the
  passes made), \<^verbatim>\<open>ttm_eu_reserve_buffers\<close> has returned, the return value is
  \<open>-ERESTARTSYS\<close>, the ticket holds no buffer any more, and the last two calls before the
  return were \<^verbatim>\<open>ww_acquire_done\<close> and \<^verbatim>\<open>ww_acquire_fini\<close> on the ticket.\<close>

theorem cancelled_wait_unwinds:
  assumes "ttm_eu_reserve_buffers fuel e (Some t) list True dups s = (r, s')"
    and "\<forall>b. holder s b \<noteq> Some (Ticket t)"
    and "LockSlow c (- EINTR) \<in> set (drop (length (trace s)) (trace s'))"
  shows "(\<exists>l' d'. r = Some (- ERESTARTSYS, l', d')) \<and>
         (\<forall>b. holder s' b \<noteq> Some (Ticket t)) \<and>
         (\<exists>pre. trace s' = pre @ [AcquireDone t, AcquireFini t]) \<and>
         acquire_ctx s' t = Finished"
proof (cases "list = []")
  case True
  with assms(1) have "s' = s" by (simp add: ttm_eu_reserve_buffers_def)
  with assms(3) show ?thesis by simp
next
  case False
  let ?s0 = "ww_acquire_init t s"
  from False assms(1)
  have loop: "reserve_loop fuel e (Some t) True list dups 0 ?s0 = (r, s')"
    by (simp add: ttm_eu_reserve_buffers_def)
  from assms(2) have inv: "holds_prefix t list 0 ?s0"
    by (simp add: holds_prefix_def)
  have le: "0 \<le> length list" by simp
  from reserve_loop_unwinds [OF loop le inv]
  obtain evs where tr: "trace s' = trace ?s0 @ evs"
      "\<forall>b. LockSlow b (- EINTR) \<in> set evs \<longrightarrow> (\<exists>l' d'. r = Some (- ERESTARTSYS, l', d'))"
    and u: "\<forall>ret l' d'. r = Some (ret, l', d') \<longrightarrow> ret \<noteq> 0 \<longrightarrow>
               acquire_ctx s' t = Finished \<and>
               (ret \<noteq> - ENOMEM \<longrightarrow> (\<forall>b. holder s' b \<noteq> Some (Ticket t))) \<and>
               (\<exists>pre. evs = pre @ [AcquireDone t, AcquireFini t])"
    by (elim conjE exE) (rule that, assumption+)
  from tr(1) have "drop (length (trace s)) (trace s') = AcquireInit t # evs"
    by simp
  with assms(3) have "LockSlow c (- EINTR) \<in> set evs" by simp
  with tr(2) obtain l' d' where r: "r = Some (- ERESTARTSYS, l', d')" by blast
  have nz: "- ERESTARTSYS \<noteq> (0::int)" "- ERESTARTSYS \<noteq> - ENOMEM"
    by (simp_all add: errno_defs)
  from u r nz obtain pre where fin: "acquire_ctx s' t = Finished"
      "\<forall>b. holder s' b \<noteq> Some (Ticket t)" "evs = pre @ [AcquireDone t, AcquireFini t]"
    by blast
  from tr(1) fin(3) have "trace s' = (trace ?s0 @ pre) @ [AcquireDone t, AcquireFini t]"
    by simp
  then have "\<exists>pre. trace s' = pre @ [AcquireDone t, AcquireFini t]" by blast
  with r fin(1,2) show ?thesis by blast
qed

theorem cancelled_wait_unwinds_witness:
  "\<exists>r s'.
     ttm_eu_reserve_buffers 3 signalling (Some 7) [vb 1 0, vb 2 0] True None
       (idle\<lparr>holder := (holder idle)(2 := Some (Ticket 3))\<rparr>) = (r, s') \<and>
     (\<forall>b. holder (idle\<lparr>holder := (holder idle)(2 := Some (Ticket 3))\<rparr>) b \<noteq> Some (Ticket 7)) \<and>
     LockSlow 2 (- EINTR) \<in> set (drop (length
         (trace (idle\<lparr>holder := (holder idle)(2 := Some (Ticket 3))\<rparr>))) (trace s')) \<and>
     r = Some (- ERESTARTSYS, [vb 1 0, vb 2 0], None) \<and>
     (\<forall>b. holder s' b \<noteq> Some (Ticket 7)) \<and>
     (\<exists>pre. trace s' = pre @ [AcquireDone 7, AcquireFini 7]) \<and>
     acquire_ctx s' 7 = Finished"
proof -
  let ?st = "idle\<lparr>holder := (holder idle)(2 := Some (Ticket 3))\<rparr>"
  let ?s' = "idle\<lparr>holder := (holder idle)(2 := Some (Ticket 3), 1 := None),
          acquire_ctx := (acquire_ctx idle)(7 := Finished),
          trace := [AcquireInit 7, Reserve 1 0, Reserve 2 (- EDEADLK), Unlock 1,
                    LockSlow 2 (- EINTR), AcquireDone 7, AcquireFini 7]\<rparr>"
  have fresh: "\<forall>b. holder ?st b \<noteq> Some (Ticket 7)"
    by (simp add: idle_def)
  have intr: "LockSlow 2 (- EINTR) \<in> set (drop (length (trace ?st)) (trace ?s'))"
    by (simp add: idle_def)
  from cancelled_wait_unwinds [OF signalling_run fresh intr] signalling_run fresh intr
  show ?thesis by blast
qed

subsection \<open>After the slow-path wait\<close>

text \<open>Claim C7 as stated fails: ticket \<open>7\<close> reserves buffers \<open>1\<close> and \<open>2\<close>, buffer \<open>2\<close>
  being held by ticket \<open>3\<close>. Buffer \<open>1\<close>, locked in the first pass, is unlocked by the
  rollback and locked again by an ordinary attempt that returns \<open>0\<close>; no attempt returns
  \<open>-EALREADY\<close> and nothing is put on the duplicates list.\<close>

theorem relocked_not_duplicate_counterexample:
  "fst (ttm_eu_reserve_buffers 4 wounding (Some 7) [vb 1 0, vb 2 0] False (Some [])
          (idle\<lparr>holder := (holder idle)(2 := Some (Ticket 3))\<rparr>)) =
     Some (0, [vb 2 0, vb 1 0], Some []) \<and>
   trace (snd (ttm_eu_reserve_buffers 4 wounding (Some 7) [vb 1 0, vb 2 0] False (Some [])
          (idle\<lparr>holder := (holder idle)(2 := Some (Ticket 3))\<rparr>))) =
     [AcquireInit 7, Reserve 1 0, Reserve 2 (- EDEADLK), Unlock 1, LockSlow 2 0, Reserve 1 0] \<and>
   Reserve 1 (- EALREADY) \<notin> set (trace (snd
     (ttm_eu_reserve_buffers 4 wounding (Some 7) [vb 1 0, vb 2 0] False (Some [])
          (idle\<lparr>holder := (holder idle)(2 := Some (Ticket 3))\<rparr>))))"
  unfolding wounding_run by (simp add: idle_def errno_defs)

text \<open>Claim C7, as the code has it. In a pass whose lock attempt is refused with
  \<open>-EDEADLK\<close> and that continues the loop (the slow-path wait and the slot reservation
  succeeded), the current entry is moved to the front of the validate list and the scan
  goes on at position \<open>1\<close>, so all other entries of the list lie ahead; the ticket then
  holds the current entry's buffer only, the buffers of the entries before it having been
  unlocked, in reverse order, before the wait: they are locked again by ordinary attempts,
  not met as duplicates.\<close>

theorem reacquired_entry_moves_to_front:
  assumes "i < length list" and "holds_prefix t list i s"
    and "fst (ttm_bo_reserve e (bo (list ! i)) intr False (Some t) s) = - EDEADLK"
    and "reserve_entry e (Some t) intr list dups i s = Next l1 d1 i1 s1"
  shows "l1 = list ! i # take i list @ drop (Suc i) list \<and> d1 = dups \<and> i1 = 1 \<and>
         drop i1 l1 = take i list @ drop (Suc i) list \<and>
         (\<forall>b. (holder s1 b = Some (Ticket t)) = (b = bo (list ! i))) \<and>
         (\<forall>x \<in> set (take i list). holder s1 (bo x) = None) \<and>
         (\<exists>evs. trace s1 = trace s @ Reserve (bo (list ! i)) (- EDEADLK) #
                   map (\<lambda>x. Unlock (bo x)) (rev (take i list)) @
                   LockSlow (bo (list ! i)) 0 # evs \<and>
                 (evs = [] \<or> evs = [ReserveShared (bo (list ! i)) (num_shared (list ! i)) 0]))"
proof -
  let ?b = "bo (list ! i)"
  let ?r = "ttm_bo_reserve e ?b intr False (Some t) s"
  from assms(1) have le: "i \<le> length list" by simp
  from assms(3) have nz: "fst ?r \<noteq> 0" and na: "fst ?r \<noteq> - EALREADY"
    by (simp_all add: errno_defs)
  from assms(4) nz na
  have lo: "reserve_lost_out e (Some t) intr list dups i (fst ?r) (snd ?r) = Next l1 d1 i1 s1"
    by (simp add: reserve_entry_flat Let_def)
  from na have nh: "holder s ?b \<noteq> Some (Ticket t)"
    by (auto simp: ttm_bo_reserve_ticket_ret split: if_splits)
  with assms(2) have nin: "?b \<notin> bo ` set (take i list)"
    by (simp add: holds_prefix_def)
  from nz have hs: "holder (snd ?r) = holder s" by simp
  from lost_out_Next [OF lo nz le]
  obtain evs where shape: "l1 = list_add (list ! i) (list_del i list)" "d1 = dups" "i1 = 1"
    and h: "\<forall>b. holder s1 b =
            (if b = ?b then Some (owner_of (Some t))
             else if b \<in> bo ` set (take i list) then None else holder (snd ?r) b)"
    and tr: "trace s1 = trace (snd ?r) @ map (\<lambda>x. Unlock (bo x)) (rev (take i list)) @
               LockSlow ?b 0 # evs"
      "evs = [] \<or> evs = [ReserveShared ?b (num_shared (list ! i)) 0]"
    by blast
  have l: "l1 = list ! i # take i list @ drop (Suc i) list"
    by (simp add: shape list_add_def list_del_def)
  have held: "\<forall>b. (holder s1 b = Some (Ticket t)) = (b = ?b)"
    using h hs assms(2) by (auto simp: holds_prefix_def owner_of_def)
  have freed: "\<forall>x \<in> set (take i list). holder s1 (bo x) = None"
  proof
    fix x assume x: "x \<in> set (take i list)"
    then have m: "bo x \<in> bo ` set (take i list)" by (rule imageI)
    with nin have "bo x \<noteq> ?b" by metis
    with h m show "holder s1 (bo x) = None" by simp
  qed
  have t: "trace s1 = trace s @ Reserve ?b (- EDEADLK) #
             map (\<lambda>x. Unlock (bo x)) (rev (take i list)) @ LockSlow ?b 0 # evs"
    using tr(1) assms(3) by simp
  from l shape(2,3) held freed t tr(2) show ?thesis by auto
qed

theorem reacquired_entry_moves_to_front_witness:
  "(1::nat) < length [vb 1 0, vb 2 0] \<and>
   holds_prefix 7 [vb 1 0, vb 2 0] 1
     (idle\<lparr>holder := (holder idle)(1 := Some (Ticket 7), 2 := Some (Ticket 3))\<rparr>) \<and>
   fst (ttm_bo_reserve wounding (bo ([vb 1 0, vb 2 0] ! 1)) False False (Some 7)
     (idle\<lparr>holder := (holder idle)(1 := Some (Ticket 7), 2 := Some (Ticket 3))\<rparr>)) = - EDEADLK \<and>
   (\<exists>s1. reserve_entry wounding (Some 7) False [vb 1 0, vb 2 0] (Some []) 1
       (idle\<lparr>holder := (holder idle)(1 := Some (Ticket 7), 2 := Some (Ticket 3))\<rparr>)
       = Next [vb 2 0, vb 1 0] (Some []) 1 s1 \<and>
     holder s1 2 = Some (Ticket 7) \<and> holder s1 1 = None \<and>
     trace s1 = [Reserve 2 (- EDEADLK), Unlock 1, LockSlow 2 0])"
proof -
  let ?l = "[vb 1 0, vb 2 0]"
  let ?s = "idle\<lparr>holder := (holder idle)(1 := Some (Ticket 7), 2 := Some (Ticket 3))\<rparr>"
  let ?s1 = "idle\<lparr>holder := (holder idle)(1 := None, 2 := Some (Ticket 7)),
                  trace := [Reserve 2 (- EDEADLK), Unlock 1, LockSlow 2 0]\<rparr>"
  have a: "(1::nat) < length ?l" by simp
  have b: "holds_prefix 7 ?l 1 ?s"
    by (auto simp: holds_prefix_def idle_def vb_def)
  have c: "fst (ttm_bo_reserve wounding (bo (?l ! 1)) False False (Some 7) ?s) = - EDEADLK"
    by (simp add: ttm_bo_reserve_ticket_ret wounding_def idle_def vb_def)
  have d: "reserve_entry wounding (Some 7) False ?l (Some []) 1 ?s =
           Next [vb 2 0, vb 1 0] (Some []) 1 ?s1"
    by (simp add: model_defs wounding_def idle_def vb_def)
  from reacquired_entry_moves_to_front [OF a b c d] a b c d
  show ?thesis by (auto simp: idle_def)
qed

subsection \<open>The ticket after release\<close>

text \<open>Claim C8 as stated fails on the empty list: with a ticket that is in use, both
  \<^verbatim>\<open>ttm_eu_backoff_reservation\<close> and \<^verbatim>\<open>ttm_eu_fence_buffer_objects\<close> return at the
  \<^verbatim>\<open>list_empty\<close> test, before \<^verbatim>\<open>ww_acquire_fini\<close>, and the ticket is not finished.\<close>

theorem empty_list_leaves_ticket_counterexample:
  "acquire_ctx (ttm_eu_backoff_reservation (Some 7) [] (ww_acquire_init 7 idle)) 7 \<noteq> Finished \<and>
   AcquireFini 7 \<notin> set (trace (ttm_eu_backoff_reservation (Some 7) [] (ww_acquire_init 7 idle))) \<and>
   acquire_ctx (ttm_eu_fence_buffer_objects (Some 7) [] 9 (ww_acquire_init 7 idle)) 7 \<noteq> Finished \<and>
   AcquireFini 7 \<notin> set (trace (ttm_eu_fence_buffer_objects (Some 7) [] 9 (ww_acquire_init 7 idle)))"
  by (simp add: ttm_eu_backoff_reservation_def ttm_eu_fence_buffer_objects_def idle_def)

text \<open>Claim C8, as the code has it. On a non-empty list \<^verbatim>\<open>ttm_eu_backoff_reservation\<close> and
  \<^verbatim>\<open>ttm_eu_fence_buffer_objects\<close> end with \<^verbatim>\<open>ww_acquire_fini\<close> on the ticket supplied,
  which leaves it finished. On an empty list both return at once and change nothing, the
  ticket included (nor did \<^verbatim>\<open>ttm_eu_reserve_buffers\<close> initialise it for an empty
  list).\<close>

theorem release_finishes_ticket:
  "(list \<noteq> [] \<longrightarrow>
      acquire_ctx (ttm_eu_backoff_reservation (Some t) list s) t = Finished \<and>
      (\<exists>pre. trace (ttm_eu_backoff_reservation (Some t) list s) = pre @ [AcquireFini t]) \<and>
      acquire_ctx (ttm_eu_fence_buffer_objects (Some t) list fence s) t = Finished \<and>
      (\<exists>pre. trace (ttm_eu_fence_buffer_objects (Some t) list fence s) = pre @ [AcquireFini t])) \<and>
   ttm_eu_backoff_reservation ticket [] s = s \<and>
   ttm_eu_fence_buffer_objects ticket [] fence s = s"
  by (simp add: ttm_eu_backoff_reservation_def ttm_eu_fence_buffer_objects_def Let_def)

theorem release_finishes_ticket_witness:
  "[vb 1 0] \<noteq> [] \<and>
   acquire_ctx (ttm_eu_backoff_reservation (Some 7) [vb 1 0] idle) 7 = Finished \<and>
   trace (ttm_eu_backoff_reservation (Some 7) [vb 1 0] idle) =
     [LruLock, MoveToLruTail 1, Unlock 1, LruUnlock] @ [AcquireFini 7] \<and>
   acquire_ctx (ttm_eu_fence_buffer_objects (Some 7) [vb 1 0] 9 idle) 7 = Finished \<and>
   trace (ttm_eu_fence_buffer_objects (Some 7) [vb 1 0] 9 idle) =
     [LruLock, AddExclFence 1 9, MoveToLruTail 1, Unlock 1, LruUnlock] @ [AcquireFini 7] \<and>
   ttm_eu_backoff_reservation (Some 7) [] idle = idle \<and>
   ttm_eu_fence_buffer_objects (Some 7) [] 9 idle = idle"
  using release_finishes_ticket [of "[vb 1 0]" 7 idle 9 "Some 7"]
  by (simp add: ttm_eu_backoff_reservation_def ttm_eu_fence_buffer_objects_def Let_def
      vb_def idle_def)

subsection \<open>A duplicate without a duplicates list\<close>

text \<open>Claim C9. In a call of \<^verbatim>\<open>ttm_eu_reserve_buffers\<close> with a fresh ticket and no
  duplicates list (\<open>dups\<close> is \<open>None\<close>), as soon as a lock attempt found the buffer already
  held by this ticket (\<open>-EALREADY\<close> from \<^verbatim>\<open>__ttm_bo_reserve\<close> is in the log of the passes
  made), the call has returned, the return value is \<open>-EALREADY\<close>, the ticket holds no
  buffer any more, and the last two calls before the return were \<^verbatim>\<open>ww_acquire_done\<close> and
  \<^verbatim>\<open>ww_acquire_fini\<close> on the ticket.\<close>

theorem already_reserved_is_terminal:
  assumes "ttm_eu_reserve_buffers fuel e (Some t) list intr None s = (r, s')"
    and "\<forall>b. holder s b \<noteq> Some (Ticket t)"
    and "Reserve c (- EALREADY) \<in> set (drop (length (trace s)) (trace s'))"
  shows "(\<exists>l' d'. r = Some (- EALREADY, l', d')) \<and>
         (\<forall>b. holder s' b \<noteq> Some (Ticket t)) \<and>
         (\<exists>pre. trace s' = pre @ [AcquireDone t, AcquireFini t]) \<and>
         acquire_ctx s' t = Finished"
proof (cases "list = []")
  case True
  with assms(1) have "s' = s" by (simp add: ttm_eu_reserve_buffers_def)
  with assms(3) show ?thesis by simp
next
  case False
  let ?s0 = "ww_acquire_init t s"
  from False assms(1)
  have loop: "reserve_loop fuel e (Some t) intr list None 0 ?s0 = (r, s')"
    by (simp add: ttm_eu_reserve_buffers_def)
  from assms(2) have inv: "holds_prefix t list 0 ?s0"
    by (simp add: holds_prefix_def)
  have le: "0 \<le> length list" by simp
  from reserve_loop_frame [OF loop]
  obtain evs where tr: "trace s' = trace ?s0 @ evs"
      "\<forall>b. Reserve b (- EALREADY) \<in> set evs \<longrightarrow> (\<exists>l' d'. r = Some (- EALREADY, l', d'))"
    by auto
  from tr(1) have "drop (length (trace s)) (trace s') = AcquireInit t # evs"
    by simp
  with assms(3) have "Reserve c (- EALREADY) \<in> set evs" by simp
  with tr(2) obtain l' d' where r: "r = Some (- EALREADY, l', d')" by blast
  have nz: "- EALREADY \<noteq> (0::int)" "- EALREADY \<noteq> - ENOMEM"
    by (simp_all add: errno_defs)
  from reserve_loop_unwinds [OF loop le inv]
  obtain evs' where tr': "trace s' = trace ?s0 @ evs'"
    and u: "\<forall>ret l' d'. r = Some (ret, l', d') \<longrightarrow> ret \<noteq> 0 \<longrightarrow>
               acquire_ctx s' t = Finished \<and>
               (ret \<noteq> - ENOMEM \<longrightarrow> (\<forall>b. holder s' b \<noteq> Some (Ticket t))) \<and>
               (\<exists>pre. evs' = pre @ [AcquireDone t, AcquireFini t])"
    by (elim conjE exE) (rule that, assumption+)
  from u r nz obtain pre where fin: "acquire_ctx s' t = Finished"
      "\<forall>b. holder s' b \<noteq> Some (Ticket t)" "evs' = pre @ [AcquireDone t, AcquireFini t]"
    by blast
  from tr' fin(3) have "trace s' = (trace ?s0 @ pre) @ [AcquireDone t, AcquireFini t]"
    by simp
  then have "\<exists>pre. trace s' = pre @ [AcquireDone t, AcquireFini t]" by blast
  with r fin(1,2) show ?thesis by blast
qed

theorem already_reserved_is_terminal_witness:
  "\<exists>r s'.
     ttm_eu_reserve_buffers 3 calm (Some 7) [vb 1 0, vb 1 1] False None idle = (r, s') \<and>
     (\<forall>b. holder idle b \<noteq> Some (Ticket 7)) \<and>
     Reserve 1 (- EALREADY) \<in> set (drop (length (trace idle)) (trace s')) \<and>
     r = Some (- EALREADY, [vb 1 0, vb 1 1], None) \<and>
     (\<forall>b. holder s' b \<noteq> Some (Ticket 7)) \<and>
     (\<exists>pre. trace s' = pre @ [AcquireDone 7, AcquireFini 7]) \<and>
     acquire_ctx s' 7 = Finished"
proof -
  let ?s' = "idle\<lparr>holder := (holder idle)(1 := None),
          acquire_ctx := (acquire_ctx idle)(7 := Finished),
          trace := [AcquireInit 7, Reserve 1 0, Reserve 1 (- EALREADY), Unlock 1,
                    AcquireDone 7, AcquireFini 7]\<rparr>"
  have fresh: "\<forall>b. holder idle b \<noteq> Some (Ticket 7)"
    by (simp add: idle_def)
  have seen: "Reserve 1 (- EALREADY) \<in> set (drop (length (trace idle)) (trace ?s'))"
    by (simp add: idle_def)
  from already_reserved_is_terminal [OF twice_run fresh seen] twice_run fresh seen
  show ?thesis by blast
qed

subsection \<open>The lists when nothing was contended\<close>

text \<open>Claim C10. When a call of \<^verbatim>\<open>ttm_eu_reserve_buffers\<close> returns and every lock attempt
  of the call succeeded at once (the log of the call has no failed \<^verbatim>\<open>__ttm_bo_reserve\<close>
  and no slow-path wait, hence no duplicate, no rollback and no wait), the validate list
  and the duplicates list are returned as they were passed, in membership and in order;
  this holds for every return value, a successful return in particular.\<close>

theorem uncontended_reserve_keeps_lists:
  assumes "ttm_eu_reserve_buffers fuel e ticket list intr dups s = (Some (ret, l', d'), s')"
    and "list_all immediate (drop (length (trace s)) (trace s'))"
  shows "l' = list \<and> d' = dups"
proof (cases "list = []")
  case True
  with assms(1) show ?thesis by (simp add: ttm_eu_reserve_buffers_def)
next
  case False
  let ?s0 = "case ticket of None \<Rightarrow> s | Some t \<Rightarrow> ww_acquire_init t s"
  from False assms(1)
  have loop: "reserve_loop fuel e ticket intr list dups 0 ?s0 = (Some (ret, l', d'), s')"
    by (simp add: ttm_eu_reserve_buffers_def)
  from reserve_loop_frame [OF loop]
  obtain evs where tr: "trace s' = trace ?s0 @ evs"
      "list_all immediate evs \<longrightarrow> l' = list \<and> d' = dups"
    by auto
  from tr(1) have "drop (length (trace s)) (trace s') =
      (case ticket of None \<Rightarrow> [] | Some t \<Rightarrow> [AcquireInit t]) @ evs"
    by (simp split: option.splits)
  with assms(2) have "list_all immediate evs" by simp
  with tr(2) show ?thesis by blast
qed

theorem uncontended_reserve_keeps_lists_witness:
  "\<exists>ret l d s'.
     ttm_eu_reserve_buffers 3 calm (Some 7) [vb 1 0, vb 2 1] False (Some []) idle
       = (Some (ret, l, d), s') \<and>
     list_all immediate (drop (length (trace idle)) (trace s')) \<and>
     ret = 0 \<and> l = [vb 1 0, vb 2 1] \<and> d = Some []"
proof -
  let ?s' = "idle\<lparr>holder := (holder idle)(1 := Some (Ticket 7), 2 := Some (Ticket 7)),
          shared_slots := (shared_slots idle)(2 := 1),
          acquire_ctx := (acquire_ctx idle)(7 := Acquiring),
          trace := [AcquireInit 7, Reserve 1 0, Reserve 2 0, ReserveShared 2 1 0]\<rparr>"
  have imm: "list_all immediate (drop (length (trace idle)) (trace ?s'))"
    by (simp add: idle_def)
  from uncontended_reserve_keeps_lists [OF calm_run imm] calm_run imm
  show ?thesis by blast
qed

end
